theory Spec2Isabelle
  imports Main "HOL-Library.Multiset"
begin

section \<open>The preprocessing notebook \<^verbatim>\<open>data_pre_processing.ipynb\<close>\<close>

text \<open>
  The notebook is a sequence of code cells that run once, top to bottom, over a
  conversational corpus. Each cell is embedded as the function it computes:
  \<^item> cell 4: \<^verbatim>\<open>clean_text\<close> and the cleaning loop;
  \<^item> cell 5: \<^verbatim>\<open>tokenize\<close> and the tokenizing loop;
  \<^item> cell 6: the conversation pairing loop;
  \<^item> cell 7: \<^verbatim>\<open>pad_sequence\<close> and the padding loop;
  \<^item> cell 8: the call of \<^verbatim>\<open>train_test_split\<close>;
  \<^item> cell 9: the encoding that \<^verbatim>\<open>json.dump\<close> writes.
  The \<^verbatim>\<open>print\<close> statements that show a sample after a loop are left out (the one of
  cell 6 reads \<^verbatim>\<open>pairs[0]\<close> and needs a pair to exist).

  A Python \<^verbatim>\<open>str\<close> is a sequence of Unicode code points; it is modelled as the list
  of its code points, each a natural number, so that every text of the corpus has its
  counterpart. Python integers are \<^typ>\<open>int\<close>.
\<close>

subsection \<open>Built-ins of Python used by the cells\<close>

type_synonym pystr = "nat list"

text \<open>A string literal of the source, as its code points.\<close>

definition str_of :: "string \<Rightarrow> pystr" where
  "str_of s = map of_char s"

text \<open>\<^verbatim>\<open>str.isspace\<close> on one code point; the class \<^verbatim>\<open>\s\<close> of \<^verbatim>\<open>re\<close> is the same set for a
  \<^verbatim>\<open>str\<close> pattern, and \<^verbatim>\<open>str.split()\<close> cuts at it. It has 29 code points: TAB, LF, VT,
  FF, CR, the separators FS, GS, RS, US, SPACE, NEL (133), NO-BREAK SPACE (160), OGHAM
  SPACE MARK (5760), EN QUAD to HAIR SPACE (8192 to 8202), LINE SEPARATOR and PARAGRAPH
  SEPARATOR (8232, 8233), NARROW NO-BREAK SPACE (8239), MEDIUM MATHEMATICAL SPACE (8287)
  and IDEOGRAPHIC SPACE (12288).\<close>

definition py_isspace :: "nat \<Rightarrow> bool" where
  "py_isspace c =
     ((9 \<le> c \<and> c \<le> 13) \<or> (28 \<le> c \<and> c \<le> 32) \<or> c = 133 \<or> c = 160 \<or> c = 5760
      \<or> (8192 \<le> c \<and> c \<le> 8202) \<or> c = 8232 \<or> c = 8233 \<or> c = 8239 \<or> c = 8287
      \<or> c = 12288)"

text \<open>A range of a character class, between the two characters that the pattern
  writes: an interval of code points.\<close>

definition in_cp_range :: "char \<Rightarrow> char \<Rightarrow> nat \<Rightarrow> bool" where
  "in_cp_range lo hi c = (of_char lo \<le> c \<and> c \<le> of_char hi)"

text \<open>The class \<^verbatim>\<open>[^a-zA-Z0-9\s]\<close> of cell 4: a code point matches when it is in none
  of the three ranges and is not whitespace.\<close>

definition special_char :: "nat \<Rightarrow> bool" where
  "special_char c =
     (\<not> (in_cp_range CHR ''a'' CHR ''z'' c \<or> in_cp_range CHR ''A'' CHR ''Z'' c
         \<or> in_cp_range CHR ''0'' CHR ''9'' c \<or> py_isspace c))"

text \<open>\<^verbatim>\<open>re.sub(cls, "", text)\<close> for a one-character class: every match is replaced
  by the empty string, so the matching code points are dropped and the others keep
  their order.\<close>

definition re_sub_empty :: "(nat \<Rightarrow> bool) \<Rightarrow> pystr \<Rightarrow> pystr" where
  "re_sub_empty cls s = filter (\<lambda>c. \<not> cls c) s"

text \<open>\<^verbatim>\<open>str.split()\<close> without arguments: skip whitespace; when code points are left,
  the token runs up to the next whitespace code point, and the scan goes on behind it.\<close>

function py_split :: "pystr \<Rightarrow> pystr list" where
  "py_split s =
     (case dropWhile py_isspace s of
        [] \<Rightarrow> []
      | c # cs \<Rightarrow>
          takeWhile (\<lambda>x. \<not> py_isspace x) (c # cs)
            # py_split (dropWhile (\<lambda>x. \<not> py_isspace x) (c # cs)))"
  by pat_completeness auto
termination
proof (relation "measure length")
  show "wf (measure length)" by simp
next
  fix s :: pystr and c cs
  assume d: "dropWhile py_isspace s = c # cs"
  have "length (dropWhile (\<lambda>x. \<not> py_isspace x) cs) \<le> length cs"
    by (rule length_dropWhile_le)
  moreover have "length (c # cs) \<le> length s"
    using length_dropWhile_le [of py_isspace s] d by simp
  moreover have "\<not> py_isspace c"
    using hd_dropWhile [of py_isspace s] d by simp
  ultimately show "(dropWhile (\<lambda>x. \<not> py_isspace x) (c # cs), s) \<in> measure length"
    by simp
qed

declare py_split.simps [simp del]

text \<open>\<^verbatim>\<open>xs[:k]\<close>: a negative bound counts from the end.\<close>

definition py_slice_to :: "'a list \<Rightarrow> int \<Rightarrow> 'a list" where
  "py_slice_to xs k =
     (if k < 0 then take (nat (int (length xs) + k)) xs else take (nat k) xs)"

text \<open>\<^verbatim>\<open>xs * k\<close>: \<open>k\<close> copies of the list, none when \<open>k\<close> is zero or negative.\<close>

definition py_list_mul :: "'a list \<Rightarrow> int \<Rightarrow> 'a list" where
  "py_list_mul xs k = concat (replicate (nat k) xs)"

subsection \<open>Cell 4: cleaning\<close>

text \<open>\<^verbatim>\<open>str.lower\<close> works from the case tables of the Unicode database, which are not
  part of the notebook, and it is not a map over the single code points (one code
  point may lower to two, and the capital sigma lowers by its position in the word).
  It is the parameter \<open>lower\<close>, a function from the whole string to the whole string.\<close>

definition clean_text :: "(pystr \<Rightarrow> pystr) \<Rightarrow> pystr \<Rightarrow> pystr" where
  "clean_text lower text0 =
     (let text1 = lower text0;
          text2 = re_sub_empty special_char text1
      in text2)"

text \<open>What the case tables give for every string: no code point of a lowered string
  is one of the letters A to Z.\<close>

definition no_capital :: "pystr \<Rightarrow> bool" where
  "no_capital t = list_all (\<lambda>c. \<not> in_cp_range CHR ''A'' CHR ''Z'' c) t"

text \<open>A part of the table of \<^verbatim>\<open>str.lower\<close>, to run the cells on examples. It is the
  table on the code points up to 255 (the letters A to Z and the Latin-1 capitals move
  up by 32), on U+0130, which lowers to two code points, and on the Kelvin sign U+212A,
  which lowers to the letter k; it leaves every other code point as it is.\<close>

definition lower_fragment_cp :: "nat \<Rightarrow> pystr" where
  "lower_fragment_cp c =
     (if (65 \<le> c \<and> c \<le> 90) \<or> (192 \<le> c \<and> c \<le> 214) \<or> (216 \<le> c \<and> c \<le> 222) then [c + 32]
      else if c = 304 then [105, 775]
      else if c = 8490 then [107]
      else [c])"

definition lower_fragment :: "pystr \<Rightarrow> pystr" where
  "lower_fragment s = concat (map lower_fragment_cp s)"

subsection \<open>Cell 5: tokenization\<close>

definition tokenize :: "pystr \<Rightarrow> pystr list" where
  "tokenize t = py_split t"

subsection \<open>Cell 7: padding\<close>

definition PAD :: pystr where
  "PAD = str_of ''<PAD>''"

definition pad_sequence :: "pystr list \<Rightarrow> int \<Rightarrow> pystr list" where
  "pad_sequence sequence max_length =
     py_slice_to sequence max_length
       @ py_list_mul [PAD] (max_length - int (length sequence))"

text \<open>The padding loop replaces, at each index, the pair of texts by the pair of the
  padded token lists of the two texts; every index is read once and written once.\<close>

definition pad_pairs :: "(pystr \<times> pystr) list \<Rightarrow> int \<Rightarrow> (pystr list \<times> pystr list) list" where
  "pad_pairs pairs max_length =
     map (\<lambda>(input_text, response_text).
            (pad_sequence (tokenize input_text) max_length,
             pad_sequence (tokenize response_text) max_length)) pairs"

subsection \<open>The corpus\<close>

text \<open>The corpus object of the loader is taken as the conversations in the order
  \<^verbatim>\<open>iter_conversations\<close> yields them, each with its utterances in the order of
  \<^verbatim>\<open>iter_utterances\<close>. An utterance has its text; the attribute \<^verbatim>\<open>tokens\<close> does not
  exist before cell 5 assigns it.\<close>

record utterance =
  utt_text :: pystr
  utt_tokens :: "pystr list option"

record conversation =
  convo_id :: string
  convo_utterances :: "utterance list"

type_synonym corpus = "conversation list"

text \<open>The loop of cell 4 assigns the cleaned text to every utterance, in place.\<close>

definition clean_utterances :: "(pystr \<Rightarrow> pystr) \<Rightarrow> corpus \<Rightarrow> corpus" where
  "clean_utterances lower corpus =
     map (\<lambda>convo. convo\<lparr>convo_utterances :=
            map (\<lambda>utt. utt\<lparr>utt_text := clean_text lower (utt_text utt)\<rparr>) (convo_utterances convo)\<rparr>)
         corpus"

text \<open>The loop of cell 5 assigns the tokens of the current text to every utterance.\<close>

definition tokenize_utterances :: "corpus \<Rightarrow> corpus" where
  "tokenize_utterances corpus =
     map (\<lambda>convo. convo\<lparr>convo_utterances :=
            map (\<lambda>utt. utt\<lparr>utt_tokens := Some (tokenize (utt_text utt))\<rparr>) (convo_utterances convo)\<rparr>)
         corpus"

subsection \<open>Cell 6: conversation pairing\<close>

text \<open>\<^verbatim>\<open>range(k)\<close> for an integer \<open>k\<close>: empty when \<open>k \<le> 0\<close>.\<close>

definition py_range :: "int \<Rightarrow> nat list" where
  "py_range k = [0 ..< nat k]"

text \<open>The inner loop appends one pair of texts for every index of
  \<^verbatim>\<open>range(len(utterances) - 1)\<close>; the outer loop runs it for every conversation on
  the one list \<^verbatim>\<open>pairs\<close>, which starts empty.\<close>

definition pair_loop :: "(pystr \<times> pystr) list \<Rightarrow> conversation \<Rightarrow> (pystr \<times> pystr) list" where
  "pair_loop pairs convo =
     (let utterances = convo_utterances convo
      in foldl (\<lambda>acc i. acc @ [(utt_text (utterances ! i), utt_text (utterances ! (i + 1)))])
           pairs (py_range (int (length utterances) - 1)))"

definition extract_pairs :: "corpus \<Rightarrow> (pystr \<times> pystr) list" where
  "extract_pairs corpus = foldl pair_loop [] corpus"

subsection \<open>The text that reaches cell 4\<close>

text \<open>The files of a corpus may hold no text for an utterance (a null). The loader of
  cell 2 is the library's: its utterance constructor does not keep a text that is not
  a \<^verbatim>\<open>str\<close>, it casts it, \<^verbatim>\<open>None\<close> to the empty string. \<open>utterance_text\<close> is that cast,
  on the values \<^verbatim>\<open>None\<close> and \<^verbatim>\<open>str\<close>.

  \<^verbatim>\<open>clean_text\<close> itself has no type check: \<^verbatim>\<open>text.lower()\<close> raises \<^verbatim>\<open>AttributeError\<close> on
  \<^verbatim>\<open>None\<close>, and \<^verbatim>\<open>re.sub\<close> raises \<^verbatim>\<open>TypeError\<close> on it. \<open>InvalidInput\<close> stands for the
  error condition that names a rejected input; no statement of the notebook raises it.\<close>

datatype py_value = PyNone | PyStr pystr

datatype py_error = AttributeError | TypeError | ValueError | InvalidInput

definition utterance_text :: "py_value \<Rightarrow> py_value" where
  "utterance_text raw = (case raw of PyNone \<Rightarrow> PyStr [] | PyStr s \<Rightarrow> PyStr s)"

definition lower_dyn :: "(pystr \<Rightarrow> pystr) \<Rightarrow> py_value \<Rightarrow> py_error + py_value" where
  "lower_dyn lower v =
     (case v of
        PyNone \<Rightarrow> Inl AttributeError
      | PyStr s \<Rightarrow> Inr (PyStr (lower s)))"

definition re_sub_dyn :: "py_value \<Rightarrow> py_error + py_value" where
  "re_sub_dyn v =
     (case v of
        PyNone \<Rightarrow> Inl TypeError
      | PyStr s \<Rightarrow> Inr (PyStr (re_sub_empty special_char s)))"

definition clean_text_dyn :: "(pystr \<Rightarrow> pystr) \<Rightarrow> py_value \<Rightarrow> py_error + py_value" where
  "clean_text_dyn lower text0 =
     (case lower_dyn lower text0 of
        Inl e \<Rightarrow> Inl e
      | Inr text1 \<Rightarrow> re_sub_dyn text1)"

text \<open>The cleaning loop over the texts of the utterances in iteration order: the first
  exception leaves the loop, since no cell catches one.\<close>

fun clean_loop_dyn :: "(pystr \<Rightarrow> pystr) \<Rightarrow> py_value list \<Rightarrow> py_error + py_value list" where
  "clean_loop_dyn lower [] = Inr []"
| "clean_loop_dyn lower (t # ts) =
     (case clean_text_dyn lower t of
        Inl e \<Rightarrow> Inl e
      | Inr t' \<Rightarrow>
          (case clean_loop_dyn lower ts of Inl e \<Rightarrow> Inl e | Inr ts' \<Rightarrow> Inr (t' # ts')))"

subsection \<open>Reusing the tokens of cell 5\<close>

text \<open>The variant of cells 6 and 7 that the design notes describe: tokenize once per
  utterance and reuse that result. It pairs the adjacent utterances and pads the
  tokens stored on them; an utterance without the attribute makes it fail.\<close>

definition convo_utterance_pairs :: "conversation \<Rightarrow> (utterance \<times> utterance) list" where
  "convo_utterance_pairs convo =
     (let utterances = convo_utterances convo
      in map (\<lambda>i. (utterances ! i, utterances ! (i + 1))) (py_range (int (length utterances) - 1)))"

definition pad_cached :: "int \<Rightarrow> utterance \<times> utterance \<Rightarrow> (pystr list \<times> pystr list) option" where
  "pad_cached max_length p =
     (case (utt_tokens (fst p), utt_tokens (snd p)) of
        (Some input_tokens, Some response_tokens) \<Rightarrow>
          Some (pad_sequence input_tokens max_length, pad_sequence response_tokens max_length)
      | _ \<Rightarrow> None)"

definition padded_pairs_cached :: "corpus \<Rightarrow> int \<Rightarrow> (pystr list \<times> pystr list) list option" where
  "padded_pairs_cached corpus max_length =
     those (map (pad_cached max_length) (concat (map convo_utterance_pairs corpus)))"

text \<open>Cells 4 to 7 of the notebook, as they run.\<close>

definition padded_pairs_reference ::
  "(pystr \<Rightarrow> pystr) \<Rightarrow> corpus \<Rightarrow> int \<Rightarrow> (pystr list \<times> pystr list) list" where
  "padded_pairs_reference lower corpus max_length =
     pad_pairs (extract_pairs (tokenize_utterances (clean_utterances lower corpus))) max_length"

subsection \<open>Cell 8: the split\<close>

text \<open>\<^verbatim>\<open>train_test_split(pairs, test_size=0.2)\<close> of scikit-learn, which the notebook
  imports. The library computes \<^verbatim>\<open>n_test = ceil(test_size * n_samples)\<close> and
  \<^verbatim>\<open>n_train = n_samples - n_test\<close>, raises \<^verbatim>\<open>ValueError\<close> when \<^verbatim>\<open>n_train\<close> is zero,
  draws a permutation of \<^verbatim>\<open>range(n_samples)\<close>, takes its first \<^verbatim>\<open>n_test\<close> indices for
  the test part and the next \<^verbatim>\<open>n_train\<close> for the train part, and returns the train list
  and the test list, each built by indexing the input. The permutation that the
  unseeded generator draws is the parameter \<open>permutation\<close>. The ceiling of a fifth is
  computed on integers; the product in double precision has the same ceiling for
  every length below \<open>2 ^ 53\<close>.\<close>

definition n_test_of :: "nat \<Rightarrow> nat" where
  "n_test_of n_samples = (n_samples + 4) div 5"

definition train_test_split :: "nat list \<Rightarrow> 'a list \<Rightarrow> py_error + ('a list \<times> 'a list)" where
  "train_test_split permutation arrays =
     (let n_samples = length arrays;
          n_test = n_test_of n_samples;
          n_train = n_samples - n_test
      in if n_train = 0 then Inl ValueError
         else let ind_test = take n_test permutation;
                  ind_train = take n_train (drop n_test permutation)
              in Inr (map (\<lambda>i. arrays ! i) ind_train, map (\<lambda>i. arrays ! i) ind_test))"

text \<open>What a run of the generator may draw for a list: a permutation of its indices.\<close>

definition is_permutation :: "nat list \<Rightarrow> nat \<Rightarrow> bool" where
  "is_permutation permutation n = (mset permutation = mset [0 ..< n])"

subsection \<open>Cell 9: the file\<close>

text \<open>Cell 9 as stored has a closing bracket in front of its \<^verbatim>\<open>with\<close> statement that
  no bracket opens, so the cell does not compile and writes no file. What is embedded
  of it is the encoding that its call \<^verbatim>\<open>json.dump(pairs, f)\<close> produces, with the reading
  of that encoding by \<^verbatim>\<open>json.load\<close>.

  The tokens that reach cell 9 are made of letters, digits and the characters of the
  sentinel. The text of the file and the strings in it are taken over the characters
  with code points 0 to 255, one \<^typ>\<open>char\<close> each.\<close>

definition in_range :: "char \<Rightarrow> char \<Rightarrow> char \<Rightarrow> bool" where
  "in_range lo hi c = ((of_char lo :: nat) \<le> of_char c \<and> (of_char c :: nat) \<le> of_char hi)"

text \<open>The JSON documents that the notebook writes: strings and arrays.\<close>

datatype json = JString string | JArray "json list"

text \<open>\<^verbatim>\<open>json.dump\<close> runs with its defaults: \<^verbatim>\<open>ensure_ascii\<close> is on, the item
  separator is a comma and a space. In a string, the backslash, the double quote and
  the five characters with a short escape are escaped so, a character from the space
  to the tilde stands for itself, and any other one is written with \<^verbatim>\<open>\u\<close> and four
  lower-case hexadecimal digits. A list and a tuple are both written as an array.\<close>

definition hex_digit :: "nat \<Rightarrow> char" where
  "hex_digit d = (if d < 10 then char_of (48 + d) else char_of (87 + d))"

definition u_escape :: "nat \<Rightarrow> string" where
  "u_escape n =
     [CHR 0x5C, CHR ''u'', hex_digit (n div 4096 mod 16), hex_digit (n div 256 mod 16),
      hex_digit (n div 16 mod 16), hex_digit (n mod 16)]"

definition escape_char :: "char \<Rightarrow> string" where
  "escape_char c =
     (if c = CHR 0x5C then [CHR 0x5C, CHR 0x5C]
      else if c = CHR 0x22 then [CHR 0x5C, CHR 0x22]
      else if c = CHR 0x08 then [CHR 0x5C, CHR ''b'']
      else if c = CHR 0x0C then [CHR 0x5C, CHR ''f'']
      else if c = CHR 0x0A then [CHR 0x5C, CHR ''n'']
      else if c = CHR 0x0D then [CHR 0x5C, CHR ''r'']
      else if c = CHR 0x09 then [CHR 0x5C, CHR ''t'']
      else if in_range CHR 0x20 CHR 0x7E c then [c]
      else u_escape (of_char c))"

definition encode_basestring_ascii :: "string \<Rightarrow> string" where
  "encode_basestring_ascii s = CHR 0x22 # concat (map escape_char s) @ [CHR 0x22]"

fun py_join :: "string \<Rightarrow> string list \<Rightarrow> string" where
  "py_join sep [] = []"
| "py_join sep [x] = x"
| "py_join sep (x # y # ys) = x @ sep @ py_join sep (y # ys)"

fun json_encode :: "json \<Rightarrow> string" where
  "json_encode (JString s) = encode_basestring_ascii s"
| "json_encode (JArray vs) = ''['' @ py_join '', '' (map json_encode vs) @ '']''"

definition json_of_tokens :: "string list \<Rightarrow> json" where
  "json_of_tokens ts = JArray (map JString ts)"

definition json_of_pair :: "string list \<times> string list \<Rightarrow> json" where
  "json_of_pair p = JArray [json_of_tokens (fst p), json_of_tokens (snd p)]"

definition json_of_pairs :: "(string list \<times> string list) list \<Rightarrow> json" where
  "json_of_pairs ps = JArray (map json_of_pair ps)"

definition json_dump :: "(string list \<times> string list) list \<Rightarrow> string" where
  "json_dump ps = json_encode (json_of_pairs ps)"

text \<open>The reader is \<^verbatim>\<open>json.load\<close> on the fragment of strings and arrays. Whitespace
  is space, tab, line feed and carriage return. A string ends at the first double
  quote that no backslash escapes; a control character in it, an unknown escape and a
  missing digit are errors. A \<^verbatim>\<open>\u\<close> escape of a code point above 255 has no character
  in the model and is read as an error, like every value that is neither a string nor
  an array.\<close>

definition json_ws :: "char \<Rightarrow> bool" where
  "json_ws c = (c = CHR 0x20 \<or> c = CHR 0x09 \<or> c = CHR 0x0A \<or> c = CHR 0x0D)"

definition skip_ws :: "string \<Rightarrow> string" where
  "skip_ws s = dropWhile json_ws s"

definition hex_val :: "char \<Rightarrow> nat option" where
  "hex_val c =
     (if in_range CHR ''0'' CHR ''9'' c then Some (of_char c - 48)
      else if in_range CHR ''a'' CHR ''f'' c then Some (of_char c - 87)
      else if in_range CHR ''A'' CHR ''F'' c then Some (of_char c - 55)
      else None)"

fun hex4 :: "string \<Rightarrow> nat option" where
  "hex4 [a, b, c, d] =
     (case (hex_val a, hex_val b, hex_val c, hex_val d) of
        (Some x, Some y, Some z, Some w) \<Rightarrow> Some (x * 4096 + y * 256 + z * 16 + w)
      | _ \<Rightarrow> None)"
| "hex4 _ = None"

definition unescape :: "char \<Rightarrow> char option" where
  "unescape e =
     (if e = CHR 0x22 then Some (CHR 0x22)
      else if e = CHR 0x5C then Some (CHR 0x5C)
      else if e = CHR ''/'' then Some (CHR ''/'')
      else if e = CHR ''b'' then Some (CHR 0x08)
      else if e = CHR ''f'' then Some (CHR 0x0C)
      else if e = CHR ''n'' then Some (CHR 0x0A)
      else if e = CHR ''r'' then Some (CHR 0x0D)
      else if e = CHR ''t'' then Some (CHR 0x09)
      else None)"

text \<open>\<open>scanstring\<close> starts behind the opening quote and returns the string with the
  text behind the closing quote.\<close>

function scanstring :: "string \<Rightarrow> (string \<times> string) option" where
  "scanstring [] = None"
| "scanstring (c # cs) =
     (if c = CHR 0x22 then Some ([], cs)
      else if c = CHR 0x5C then
        (case cs of
           [] \<Rightarrow> None
         | e # r \<Rightarrow>
             if e = CHR ''u'' then
               (case hex4 (take 4 r) of
                  None \<Rightarrow> None
                | Some n \<Rightarrow>
                    if n < 256
                    then map_option (\<lambda>(t, rest). (char_of n # t, rest)) (scanstring (drop 4 r))
                    else None)
             else
               (case unescape e of
                  None \<Rightarrow> None
                | Some x \<Rightarrow> map_option (\<lambda>(t, rest). (x # t, rest)) (scanstring r)))
      else if (of_char c :: nat) < 32 then None
      else map_option (\<lambda>(t, rest). (c # t, rest)) (scanstring cs))"
  by pat_completeness auto
termination
  by (relation "measure length") auto

text \<open>\<open>parse_value\<close> reads one value at the head of the text, \<open>parse_elems\<close> the
  elements of an array that is not empty, up to its closing bracket. Every call uses
  one unit of fuel, and every call consumes a character, so the length of the text is
  fuel enough.\<close>

fun parse_value :: "nat \<Rightarrow> string \<Rightarrow> (json \<times> string) option"
  and parse_elems :: "nat \<Rightarrow> string \<Rightarrow> (json list \<times> string) option" where
  "parse_value 0 s = None"
| "parse_value (Suc n) s =
     (case s of
        [] \<Rightarrow> None
      | c # cs \<Rightarrow>
          if c = CHR 0x22 then map_option (\<lambda>(t, rest). (JString t, rest)) (scanstring cs)
          else if c = CHR ''['' then
            (case skip_ws cs of
               [] \<Rightarrow> None
             | d # ds \<Rightarrow>
                 if d = CHR '']'' then Some (JArray [], ds)
                 else map_option (\<lambda>(vs, rest). (JArray vs, rest)) (parse_elems n (d # ds)))
          else None)"
| "parse_elems 0 s = None"
| "parse_elems (Suc n) s =
     (case parse_value n s of
        None \<Rightarrow> None
      | Some (v, r) \<Rightarrow>
          (case skip_ws r of
             [] \<Rightarrow> None
           | d # ds \<Rightarrow>
               if d = CHR '']'' then Some ([v], ds)
               else if d = CHR '','' then
                 map_option (\<lambda>(vs, rest). (v # vs, rest)) (parse_elems n (skip_ws ds))
               else None))"

definition json_loads :: "string \<Rightarrow> json option" where
  "json_loads s =
     (case parse_value (length s) (skip_ws s) of
        None \<Rightarrow> None
      | Some (v, r) \<Rightarrow> if skip_ws r = [] then Some v else None)"

text \<open>Reading the document as a list of pairs of token lists: an array of two-element
  arrays of arrays of strings.\<close>

fun string_of_json :: "json \<Rightarrow> string option" where
  "string_of_json (JString s) = Some s"
| "string_of_json (JArray vs) = None"

fun tokens_of_json :: "json \<Rightarrow> string list option" where
  "tokens_of_json (JArray vs) = those (map string_of_json vs)"
| "tokens_of_json (JString s) = None"

fun pair_of_json :: "json \<Rightarrow> (string list \<times> string list) option" where
  "pair_of_json (JArray [a, b]) =
     (case (tokens_of_json a, tokens_of_json b) of
        (Some x, Some y) \<Rightarrow> Some (x, y)
      | _ \<Rightarrow> None)"
| "pair_of_json _ = None"

fun pairs_of_json :: "json \<Rightarrow> (string list \<times> string list) list option" where
  "pairs_of_json (JArray vs) = those (map pair_of_json vs)"
| "pairs_of_json (JString s) = None"

definition deserialize :: "string \<Rightarrow> (string list \<times> string list) list option" where
  "deserialize s = (case json_loads s of None \<Rightarrow> None | Some v \<Rightarrow> pairs_of_json v)"

subsection \<open>The contracts in the words of the specification\<close>

text \<open>The Normalizer's contract: lowercase, then remove every character outside
  \<^verbatim>\<open>[a-z0-9]\<close> and whitespace. The characters it keeps are those of the pattern
  \<^verbatim>\<open>^[a-z0-9\s]*$\<close>.\<close>

definition kept_by_spec :: "nat \<Rightarrow> bool" where
  "kept_by_spec c =
     (in_cp_range CHR ''a'' CHR ''z'' c \<or> in_cp_range CHR ''0'' CHR ''9'' c \<or> py_isspace c)"

definition clean_text_spec :: "(pystr \<Rightarrow> pystr) \<Rightarrow> pystr \<Rightarrow> pystr" where
  "clean_text_spec lower s = filter kept_by_spec (lower s)"

text \<open>The Tokenizer's contract: split at whitespace, then discard the empty tokens
  that leading, trailing and repeated whitespace leave. \<open>split_every\<close> cuts at every
  single whitespace code point, so a run of them leaves empty pieces.\<close>

fun split_every :: "pystr \<Rightarrow> pystr list" where
  "split_every [] = [[]]"
| "split_every (c # cs) =
     (if py_isspace c then [] # split_every cs
      else (case split_every cs of [] \<Rightarrow> [[c]] | f # fs \<Rightarrow> (c # f) # fs))"

definition tokenize_spec :: "pystr \<Rightarrow> pystr list" where
  "tokenize_spec s = filter (\<lambda>t. t \<noteq> []) (split_every s)"

section \<open>Conversation pairing\<close>

lemma foldl_snoc_map: "foldl (\<lambda>acc i. acc @ [f i]) acc xs = acc @ map f xs"
  by (induction xs arbitrary: acc) simp_all

lemma pair_loop_eq:
  "pair_loop acc convo =
     acc @ map (\<lambda>i. (utt_text (convo_utterances convo ! i), utt_text (convo_utterances convo ! (i + 1))))
             [0 ..< length (convo_utterances convo) - 1]"
proof -
  have "nat (int (length (convo_utterances convo)) - 1) = length (convo_utterances convo) - 1"
    by linarith
  then show ?thesis
    by (simp add: pair_loop_def py_range_def Let_def foldl_snoc_map)
qed

lemma pair_loop_append: "pair_loop acc convo = acc @ pair_loop [] convo"
  by (simp add: pair_loop_eq)

lemma foldl_pair_loop: "foldl pair_loop acc corpus = acc @ concat (map (pair_loop []) corpus)"
proof (induction corpus arbitrary: acc)
  case Nil
  then show ?case by simp
next
  case (Cons c cs)
  show ?case
    by (simp add: Cons.IH pair_loop_append [of acc c])
qed

lemma extract_pairs_concat: "extract_pairs corpus = concat (map (pair_loop []) corpus)"
  by (simp add: extract_pairs_def foldl_pair_loop)

lemma extract_pairs_single: "extract_pairs [convo] = pair_loop [] convo"
  by (simp add: extract_pairs_def)

lemma pair_loop_length: "length (pair_loop [] convo) = length (convo_utterances convo) - 1"
  by (simp add: pair_loop_eq)

lemma pair_loop_nth:
  "i < length (convo_utterances convo) - 1 \<Longrightarrow>
   pair_loop [] convo ! i =
     (utt_text (convo_utterances convo ! i), utt_text (convo_utterances convo ! (i + 1)))"
  by (simp add: pair_loop_eq)

text \<open>
  C2. The pairs of a corpus are the pairs of its conversations, one conversation after
  the other. A conversation of \<open>n\<close> utterances gives \<open>max (n - 1) 0\<close> pairs, the pair at
  index \<open>i\<close> being the texts of the utterances \<open>i\<close> and \<open>i + 1\<close>; with fewer than two
  utterances it gives none, and no index is read out of range. So every pair of the
  corpus joins two adjacent utterances of one conversation.
\<close>

theorem extract_pairs_adjacent:
  "extract_pairs corpus = concat (map (\<lambda>convo. extract_pairs [convo]) corpus)
   \<and> (\<forall>convo. int (length (extract_pairs [convo]))
                = max (int (length (convo_utterances convo)) - 1) 0)
   \<and> (\<forall>convo i. i < length (extract_pairs [convo]) \<longrightarrow>
         extract_pairs [convo] ! i =
           (utt_text (convo_utterances convo ! i), utt_text (convo_utterances convo ! (i + 1))))
   \<and> (\<forall>convo. length (convo_utterances convo) < 2 \<longrightarrow> extract_pairs [convo] = [])
   \<and> (\<forall>p \<in> set (extract_pairs corpus). \<exists>convo \<in> set corpus. \<exists>i.
         i + 1 < length (convo_utterances convo)
         \<and> p = (utt_text (convo_utterances convo ! i), utt_text (convo_utterances convo ! (i + 1))))"
proof -
  have 1: "extract_pairs corpus = concat (map (\<lambda>convo. extract_pairs [convo]) corpus)"
    by (simp add: extract_pairs_single extract_pairs_concat)
  have 2: "\<forall>convo. int (length (extract_pairs [convo]))
                = max (int (length (convo_utterances convo)) - 1) 0"
    by (auto simp: extract_pairs_single pair_loop_length)
  have 3: "\<forall>convo i. i < length (extract_pairs [convo]) \<longrightarrow>
         extract_pairs [convo] ! i =
           (utt_text (convo_utterances convo ! i), utt_text (convo_utterances convo ! (i + 1)))"
    by (simp add: extract_pairs_single pair_loop_length pair_loop_nth)
  have 4: "\<forall>convo. length (convo_utterances convo) < 2 \<longrightarrow> extract_pairs [convo] = []"
  proof (intro allI impI)
    fix convo :: conversation
    assume "length (convo_utterances convo) < 2"
    then have "length (pair_loop [] convo) = 0"
      by (simp add: pair_loop_length)
    then show "extract_pairs [convo] = []"
      by (simp add: extract_pairs_single)
  qed
  have 5: "\<forall>p \<in> set (extract_pairs corpus). \<exists>convo \<in> set corpus. \<exists>i.
         i + 1 < length (convo_utterances convo)
         \<and> p = (utt_text (convo_utterances convo ! i), utt_text (convo_utterances convo ! (i + 1)))"
  proof
    fix p
    assume "p \<in> set (extract_pairs corpus)"
    then obtain convo where c: "convo \<in> set corpus" and p: "p \<in> set (pair_loop [] convo)"
      by (auto simp: extract_pairs_concat)
    from p obtain i where i: "i < length (pair_loop [] convo)" and e: "p = pair_loop [] convo ! i"
      by (auto simp: in_set_conv_nth)
    from i have b: "i < length (convo_utterances convo) - 1"
      by (simp add: pair_loop_length)
    then have "i + 1 < length (convo_utterances convo)" by simp
    with c e pair_loop_nth [OF b] show "\<exists>convo \<in> set corpus. \<exists>i.
         i + 1 < length (convo_utterances convo)
         \<and> p = (utt_text (convo_utterances convo ! i), utt_text (convo_utterances convo ! (i + 1)))"
      by blast
  qed
  from 1 2 3 4 5 show ?thesis by blast
qed

theorem extract_pairs_adjacent_witness:
  "extract_pairs
     [\<lparr>convo_id = ''c1'', convo_utterances =
        [\<lparr>utt_text = str_of ''a'', utt_tokens = None\<rparr>, \<lparr>utt_text = str_of ''b'', utt_tokens = None\<rparr>,
         \<lparr>utt_text = str_of ''c'', utt_tokens = None\<rparr>]\<rparr>,
      \<lparr>convo_id = ''c2'', convo_utterances = [\<lparr>utt_text = str_of ''d'', utt_tokens = None\<rparr>]\<rparr>]
   = [(str_of ''a'', str_of ''b''), (str_of ''b'', str_of ''c'')]
   \<and> extract_pairs
        [\<lparr>convo_id = ''c1'', convo_utterances =
           [\<lparr>utt_text = str_of ''a'', utt_tokens = None\<rparr>, \<lparr>utt_text = str_of ''b'', utt_tokens = None\<rparr>,
            \<lparr>utt_text = str_of ''c'', utt_tokens = None\<rparr>]\<rparr>] ! 1 = (str_of ''b'', str_of ''c'')
   \<and> extract_pairs [\<lparr>convo_id = ''c2'', convo_utterances = [\<lparr>utt_text = str_of ''d'', utt_tokens = None\<rparr>]\<rparr>] = []
   \<and> (\<exists>convo \<in> set
          [\<lparr>convo_id = ''c1'', convo_utterances =
             [\<lparr>utt_text = str_of ''a'', utt_tokens = None\<rparr>, \<lparr>utt_text = str_of ''b'', utt_tokens = None\<rparr>,
              \<lparr>utt_text = str_of ''c'', utt_tokens = None\<rparr>]\<rparr>,
           \<lparr>convo_id = ''c2'', convo_utterances = [\<lparr>utt_text = str_of ''d'', utt_tokens = None\<rparr>]\<rparr>]. \<exists>i.
         i + 1 < length (convo_utterances convo)
         \<and> (str_of ''b'', str_of ''c'') = (utt_text (convo_utterances convo ! i), utt_text (convo_utterances convo ! (i + 1))))"
proof -
  let ?c1 = "\<lparr>convo_id = ''c1'', convo_utterances =
        [\<lparr>utt_text = str_of ''a'', utt_tokens = None\<rparr>, \<lparr>utt_text = str_of ''b'', utt_tokens = None\<rparr>,
         \<lparr>utt_text = str_of ''c'', utt_tokens = None\<rparr>]\<rparr>"
  let ?c2 = "\<lparr>convo_id = ''c2'', convo_utterances = [\<lparr>utt_text = str_of ''d'', utt_tokens = None\<rparr>]\<rparr>"
  note t = extract_pairs_adjacent [of "[?c1, ?c2]"]
  have v: "extract_pairs [?c1, ?c2] = [(str_of ''a'', str_of ''b''), (str_of ''b'', str_of ''c'')]"
    by (simp add: extract_pairs_concat pair_loop_eq upt_rec)
  have l: "(1::nat) < length (extract_pairs [?c1])"
    by (simp add: extract_pairs_concat pair_loop_eq)
  from t have "\<forall>convo i. i < length (extract_pairs [convo]) \<longrightarrow>
         extract_pairs [convo] ! i =
           (utt_text (convo_utterances convo ! i), utt_text (convo_utterances convo ! (i + 1)))"
    by (elim conjE)
  with l have n: "extract_pairs [?c1] ! 1 = (str_of ''b'', str_of ''c'')"
    by fastforce
  from t have "\<forall>convo. length (convo_utterances convo) < 2 \<longrightarrow> extract_pairs [convo] = []"
    by (elim conjE)
  then have e: "extract_pairs [?c2] = []"
    by simp
  have "(str_of ''b'', str_of ''c'') \<in> set (extract_pairs [?c1, ?c2])"
    by (simp add: v)
  with t have x: "\<exists>convo \<in> set [?c1, ?c2]. \<exists>i.
         i + 1 < length (convo_utterances convo)
         \<and> (str_of ''b'', str_of ''c'') = (utt_text (convo_utterances convo ! i), utt_text (convo_utterances convo ! (i + 1)))"
    by blast
  from v n e x show ?thesis by blast
qed

section \<open>Cleaning\<close>

lemma not_special_iff_kept:
  "\<not> in_cp_range CHR ''A'' CHR ''Z'' c \<Longrightarrow> (\<not> special_char c) = kept_by_spec c"
  by (auto simp: special_char_def kept_by_spec_def)

lemma kept_not_capital: "kept_by_spec c \<Longrightarrow> \<not> in_cp_range CHR ''A'' CHR ''Z'' c"
  by (auto simp: kept_by_spec_def in_cp_range_def py_isspace_def)

lemma clean_text_unfold: "clean_text lower s = filter (\<lambda>c. \<not> special_char c) (lower s)"
  by (simp add: clean_text_def re_sub_empty_def)

lemma clean_text_filter:
  assumes "no_capital (lower s)"
  shows "clean_text lower s = filter kept_by_spec (lower s)"
proof -
  have "\<not> in_cp_range CHR ''A'' CHR ''Z'' c" if "c \<in> set (lower s)" for c
    using assms that by (simp add: no_capital_def list_all_iff)
  then have "filter (\<lambda>c. \<not> special_char c) (lower s) = filter kept_by_spec (lower s)"
    by (intro filter_cong refl not_special_iff_kept)
  then show ?thesis by (simp only: clean_text_unfold)
qed

lemma clean_text_not_special: "c \<in> set (clean_text lower s) \<Longrightarrow> \<not> special_char c"
  by (simp add: clean_text_unfold)

text \<open>
  C3. For every string, of any code points: \<open>clean_text\<close> is the lowercased string with
  every code point outside \<^verbatim>\<open>[a-z0-9]\<close> and whitespace deleted and nothing put in its
  place, a filter of the lowercased string. So every code point of the result is one
  the pattern \<^verbatim>\<open>^[a-z0-9\s]*$\<close> admits, which leaves no room for an uppercase letter, and
  the empty string is cleaned to the empty string. What is used of \<^verbatim>\<open>str.lower\<close> is that
  the lowered string has none of the letters A to Z, and that it lowers the empty string
  to itself.
\<close>

theorem clean_text_normalizes:
  assumes "no_capital (lower s)"
  shows "clean_text lower s = clean_text_spec lower s
       \<and> (\<forall>c \<in> set (clean_text lower s). kept_by_spec c)
       \<and> (\<forall>c \<in> set (clean_text lower s). \<not> in_cp_range CHR ''A'' CHR ''Z'' c)
       \<and> (lower [] = [] \<longrightarrow> clean_text lower [] = [])"
proof -
  have 1: "clean_text lower s = clean_text_spec lower s"
    using assms by (simp add: clean_text_filter clean_text_spec_def)
  have 2: "\<forall>c \<in> set (clean_text lower s). kept_by_spec c"
    by (simp add: 1 clean_text_spec_def)
  have 3: "\<forall>c \<in> set (clean_text lower s). \<not> in_cp_range CHR ''A'' CHR ''Z'' c"
    using 2 kept_not_capital by blast
  have 4: "lower [] = [] \<longrightarrow> clean_text lower [] = []"
    by (simp add: clean_text_unfold)
  from 1 2 3 4 show ?thesis by blast
qed

theorem clean_text_normalizes_witness:
  "no_capital (lower_fragment (str_of ''Hello, World!'' @ [12288, 304, 8490]))
   \<and> clean_text lower_fragment (str_of ''Hello, World!'' @ [12288, 304, 8490])
       = str_of ''hello world'' @ [12288, 105, 107]
   \<and> clean_text_spec lower_fragment (str_of ''Hello, World!'' @ [12288, 304, 8490])
       = str_of ''hello world'' @ [12288, 105, 107]
   \<and> kept_by_spec 12288
   \<and> \<not> in_cp_range CHR ''A'' CHR ''Z'' 107
   \<and> clean_text lower_fragment [] = []"
proof -
  let ?s = "str_of ''Hello, World!'' @ [12288, 304, 8490]"
  have h: "no_capital (lower_fragment ?s)"
    by (simp add: no_capital_def lower_fragment_def lower_fragment_cp_def str_of_def in_cp_range_def)
  note t = clean_text_normalizes [of lower_fragment ?s, OF h]
  have v: "clean_text lower_fragment ?s = str_of ''hello world'' @ [12288, 105, 107]"
    by (simp add: clean_text_def re_sub_empty_def special_char_def py_isspace_def in_cp_range_def
        lower_fragment_def lower_fragment_cp_def str_of_def)
  from t v have s: "clean_text_spec lower_fragment ?s = str_of ''hello world'' @ [12288, 105, 107]"
    by simp
  have m: "12288 \<in> set (clean_text lower_fragment ?s)" "107 \<in> set (clean_text lower_fragment ?s)"
    by (simp_all add: v)
  from t m have k: "kept_by_spec 12288" and u: "\<not> in_cp_range CHR ''A'' CHR ''Z'' 107"
    by blast+
  have "lower_fragment [] = []"
    by (simp add: lower_fragment_def)
  with t have e: "clean_text lower_fragment [] = []"
    by blast
  from h v s k u e show ?thesis by blast
qed

section \<open>Tokenization\<close>

lemma py_split_Nil: "py_split [] = []"
  by (simp add: py_split.simps)

lemma py_split_space: "py_isspace c \<Longrightarrow> py_split (c # cs) = py_split cs"
  by (simp add: py_split.simps [of "c # cs"] py_split.simps [of cs])

lemma py_split_nonspace:
  "\<not> py_isspace c \<Longrightarrow>
   py_split (c # cs) =
     (c # takeWhile (\<lambda>x. \<not> py_isspace x) cs) # py_split (dropWhile (\<lambda>x. \<not> py_isspace x) cs)"
  by (simp add: py_split.simps [of "c # cs"])

lemma split_every_nonempty: "split_every s \<noteq> []"
  by (induction s) (auto split: list.splits)

lemma split_every_py_split:
  "filter (\<lambda>t. t \<noteq> []) (split_every s) = py_split s
   \<and> hd (split_every s) = takeWhile (\<lambda>x. \<not> py_isspace x) s
   \<and> filter (\<lambda>t. t \<noteq> []) (tl (split_every s)) = py_split (dropWhile (\<lambda>x. \<not> py_isspace x) s)"
proof (induction s)
  case Nil
  then show ?case by (simp add: py_split_Nil)
next
  case (Cons c cs)
  show ?case
  proof (cases "py_isspace c")
    case True
    with Cons show ?thesis by (simp add: py_split_space)
  next
    case False
    obtain f fs where e: "split_every cs = f # fs"
      using split_every_nonempty [of cs] by (cases "split_every cs") auto
    with Cons False show ?thesis by (simp add: py_split_nonspace)
  qed
qed

lemma py_split_tokens:
  "t \<in> set (py_split s) \<Longrightarrow> t \<noteq> [] \<and> (\<forall>c \<in> set t. \<not> py_isspace c) \<and> set t \<subseteq> set s"
proof (induction s arbitrary: t rule: py_split.induct)
  case (1 s)
  show ?case
  proof (cases "dropWhile py_isspace s")
    case Nil
    with "1.prems" show ?thesis by (simp add: py_split.simps [of s])
  next
    case (Cons c cs)
    have ns: "\<not> py_isspace c"
      using hd_dropWhile [of py_isspace s] Cons by simp
    have sub: "set (c # cs) \<subseteq> set s"
      using set_dropWhileD [of _ py_isspace s] Cons by auto
    from "1.prems" Cons
    consider (a) "t = takeWhile (\<lambda>x. \<not> py_isspace x) (c # cs)"
      | (b) "t \<in> set (py_split (dropWhile (\<lambda>x. \<not> py_isspace x) (c # cs)))"
      by (auto simp: py_split.simps [of s])
    then show ?thesis
    proof cases
      case a
      have "set t \<subseteq> set (c # cs)"
        unfolding a by (rule set_takeWhileD [THEN conjunct1, THEN subsetI, of _ _ "c # cs"]) 
      moreover have "\<forall>x \<in> set t. \<not> py_isspace x"
        unfolding a by (auto dest: set_takeWhileD)
      moreover have "t \<noteq> []" using a ns by simp
      ultimately show ?thesis using sub by blast
    next
      case b
      from "1.IH" [OF Cons b]
      have "t \<noteq> []" "\<forall>c \<in> set t. \<not> py_isspace c"
        "set t \<subseteq> set (dropWhile (\<lambda>x. \<not> py_isspace x) (c # cs))"
        by blast+
      moreover have "set (dropWhile (\<lambda>x. \<not> py_isspace x) (c # cs)) \<subseteq> set (c # cs)"
        by (auto dest: set_dropWhileD)
      ultimately show ?thesis using sub by blast
    qed
  qed
qed

lemma tokenize_eq_spec: "tokenize s = tokenize_spec s"
  by (simp add: tokenize_def tokenize_spec_def split_every_py_split)

lemma tokenize_tokens:
  "t \<in> set (tokenize s) \<Longrightarrow> t \<noteq> [] \<and> (\<forall>c \<in> set t. \<not> py_isspace c) \<and> set t \<subseteq> set s"
  unfolding tokenize_def by (rule py_split_tokens)

text \<open>
  C4. For every string, of any code points, \<open>tokenize\<close> returns, in order, the pieces
  between whitespace with the empty pieces discarded; no token is empty and none holds
  a whitespace code point, in particular no token of a cleaned string is empty; the
  empty string has no tokens.
\<close>

theorem tokenize_splits:
  "tokenize s = tokenize_spec s
   \<and> [] \<notin> set (tokenize s)
   \<and> (\<forall>t \<in> set (tokenize s). \<forall>c \<in> set t. \<not> py_isspace c)
   \<and> [] \<notin> set (tokenize (clean_text lower s))
   \<and> tokenize [] = []"
proof -
  have 2: "[] \<notin> set (tokenize u)" for u
    using tokenize_tokens [of "[]" u] by blast
  have 3: "\<forall>t \<in> set (tokenize s). \<forall>c \<in> set t. \<not> py_isspace c"
    using tokenize_tokens by blast
  have 5: "tokenize [] = []"
    by (simp add: tokenize_def py_split_Nil)
  from tokenize_eq_spec [of s] 2 [of s] 3 2 [of "clean_text lower s"] 5 show ?thesis by blast
qed

lemmas run_defs = str_of_def tokenize_def py_split_Nil py_split_space py_split_nonspace
  py_isspace_def clean_text_def re_sub_empty_def special_char_def in_cp_range_def
  lower_fragment_def lower_fragment_cp_def no_capital_def
  pad_sequence_def py_slice_to_def py_list_mul_def PAD_def Let_def

lemmas run_cells = clean_utterances_def tokenize_utterances_def extract_pairs_concat
  pair_loop_eq padded_pairs_reference_def pad_pairs_def upt_rec

theorem tokenize_splits_witness:
  "tokenize (str_of ''  im'' @ [8195, 12288] @ str_of ''fine '') = [str_of ''im'', str_of ''fine'']
   \<and> tokenize_spec (str_of ''  im'' @ [8195, 12288] @ str_of ''fine '') = [str_of ''im'', str_of ''fine'']
   \<and> \<not> py_isspace 102"
proof -
  let ?s = "str_of ''  im'' @ [8195, 12288] @ str_of ''fine ''"
  note t = tokenize_splits [of ?s]
  have v: "tokenize ?s = [str_of ''im'', str_of ''fine'']"
    by (simp add: run_defs)
  from t v have s: "tokenize_spec ?s = [str_of ''im'', str_of ''fine'']"
    by simp
  have "str_of ''fine'' \<in> set (tokenize ?s)" and "102 \<in> set (str_of ''fine'')"
    using v by (simp_all add: str_of_def)
  with t have "\<not> py_isspace 102"
    by blast
  with v s show ?thesis by blast
qed

lemma clean_token_chars:
  "t \<in> set (tokenize (clean_text lower s)) \<Longrightarrow> c \<in> set t \<Longrightarrow>
   in_cp_range CHR ''a'' CHR ''z'' c \<or> in_cp_range CHR ''A'' CHR ''Z'' c
     \<or> in_cp_range CHR ''0'' CHR ''9'' c"
proof -
  assume t: "t \<in> set (tokenize (clean_text lower s))" and c: "c \<in> set t"
  from tokenize_tokens [OF t] c have "\<not> py_isspace c" and "c \<in> set (clean_text lower s)"
    by blast+
  with clean_text_not_special [of c lower s] show ?thesis
    by (auto simp: special_char_def)
qed

lemma clean_token_chars_lowered:
  "no_capital (lower s) \<Longrightarrow> t \<in> set (tokenize (clean_text lower s)) \<Longrightarrow> c \<in> set t \<Longrightarrow>
   in_cp_range CHR ''a'' CHR ''z'' c \<or> in_cp_range CHR ''0'' CHR ''9'' c"
proof -
  assume n: "no_capital (lower s)" and t: "t \<in> set (tokenize (clean_text lower s))"
    and c: "c \<in> set t"
  from tokenize_tokens [OF t] c have "\<not> py_isspace c" and "c \<in> set (clean_text lower s)"
    by blast+
  moreover have "\<forall>c \<in> set (clean_text lower s). kept_by_spec c"
    by (simp add: clean_text_filter [of lower s, OF n])
  ultimately show ?thesis
    by (auto simp: kept_by_spec_def)
qed

lemma PAD_not_clean_token: "PAD \<notin> set (tokenize (clean_text lower s))"
proof
  assume "PAD \<in> set (tokenize (clean_text lower s))"
  from clean_token_chars [OF this, of 60] show False
    by (simp add: PAD_def str_of_def in_cp_range_def)
qed

section \<open>Padding\<close>

lemma pad_sequence_eq:
  "0 \<le> m \<Longrightarrow> pad_sequence xs m = take (nat m) xs @ replicate (nat m - length xs) PAD"
proof -
  assume m: "0 \<le> m"
  have c: "concat (replicate k [PAD]) = replicate k PAD" for k
    by (induction k) simp_all
  have n: "nat (m - int (length xs)) = nat m - length xs"
    using m by linarith
  show ?thesis
    using m by (simp add: pad_sequence_def py_slice_to_def py_list_mul_def c n)
qed

lemma pad_sequence_length: "0 \<le> m \<Longrightarrow> length (pad_sequence xs m) = nat m"
  by (simp add: pad_sequence_eq)

text \<open>
  C1. For a bound \<open>m \<ge> 1\<close>, \<open>pad_sequence\<close> returns exactly \<open>m\<close> tokens: the first
  \<open>min (length xs) m\<close> are the input's, all the others are the sentinel. An empty input
  gives \<open>m\<close> sentinels; an input of at least \<open>m\<close> tokens gives its first \<open>m\<close> tokens, and
  then the sentinel occurs in the result only if it occurred in the input, which it never
  does in the tokens of a cleaned text; both sides of every pair that the padding loop
  produces have length \<open>m\<close>.
\<close>

theorem pad_sequence_shape:
  assumes "1 \<le> m"
  shows "length (pad_sequence xs m) = nat m
       \<and> (\<forall>i < min (length xs) (nat m). pad_sequence xs m ! i = xs ! i)
       \<and> (\<forall>i. min (length xs) (nat m) \<le> i \<and> i < nat m \<longrightarrow> pad_sequence xs m ! i = PAD)
       \<and> pad_sequence [] m = replicate (nat m) PAD
       \<and> (nat m \<le> length xs \<longrightarrow> pad_sequence xs m = take (nat m) xs)
       \<and> (nat m \<le> length xs \<and> PAD \<notin> set xs \<longrightarrow> PAD \<notin> set (pad_sequence xs m))
       \<and> (nat m \<le> length (tokenize (clean_text lower s)) \<longrightarrow>
            PAD \<notin> set (pad_sequence (tokenize (clean_text lower s)) m))
       \<and> (\<forall>(a, b) \<in> set (pad_pairs ps m). length a = nat m \<and> length b = nat m)"
proof -
  from assms have m: "0 \<le> m" by simp
  have e: "pad_sequence ys m = take (nat m) ys @ replicate (nat m - length ys) PAD" for ys
    using m by (rule pad_sequence_eq)
  have 1: "length (pad_sequence xs m) = nat m"
    using m by (rule pad_sequence_length)
  have 2: "\<forall>i < min (length xs) (nat m). pad_sequence xs m ! i = xs ! i"
    by (simp add: e nth_append)
  have 3: "\<forall>i. min (length xs) (nat m) \<le> i \<and> i < nat m \<longrightarrow> pad_sequence xs m ! i = PAD"
    by (auto simp: e nth_append min_def)
  have 4: "pad_sequence [] m = replicate (nat m) PAD"
    by (simp add: e)
  have 5: "nat m \<le> length xs \<longrightarrow> pad_sequence xs m = take (nat m) xs"
    by (simp add: e)
  have 6: "nat m \<le> length ys \<and> PAD \<notin> set ys \<longrightarrow> PAD \<notin> set (pad_sequence ys m)" for ys
    by (auto simp: e dest: in_set_takeD)
  have 8: "nat m \<le> length (tokenize (clean_text lower s)) \<longrightarrow>
            PAD \<notin> set (pad_sequence (tokenize (clean_text lower s)) m)"
    using 6 [of "tokenize (clean_text lower s)"] PAD_not_clean_token [of lower s] by blast
  have 7: "\<forall>(a, b) \<in> set (pad_pairs ps m). length a = nat m \<and> length b = nat m"
    using m by (auto simp: pad_pairs_def pad_sequence_length)
  from 1 2 3 4 5 6 [of xs] 8 7 show ?thesis by blast
qed

theorem pad_sequence_shape_witness:
  "(1::int) \<le> 3
   \<and> pad_sequence [str_of ''hello'', str_of ''world''] 3 = [str_of ''hello'', str_of ''world'', str_of ''<PAD>'']
   \<and> length (pad_sequence [str_of ''hello'', str_of ''world''] 3) = 3
   \<and> pad_sequence [str_of ''hello'', str_of ''world''] 3 ! 1 = str_of ''world''
   \<and> pad_sequence [str_of ''hello'', str_of ''world''] 3 ! 2 = PAD
   \<and> pad_sequence [str_of ''a'', str_of ''b'', str_of ''c'', str_of ''d''] 3 = [str_of ''a'', str_of ''b'', str_of ''c'']
   \<and> PAD \<notin> set (pad_sequence [str_of ''a'', str_of ''b'', str_of ''c'', str_of ''d''] 3)
   \<and> length (fst (pad_pairs [(str_of ''hello world'', str_of ''fine'')] 3 ! 0)) = 3
   \<and> length (snd (pad_pairs [(str_of ''hello world'', str_of ''fine'')] 3 ! 0)) = 3"
proof -
  have h: "(1::int) \<le> 3" by simp
  note short = pad_sequence_shape [OF h, where xs = "[str_of ''hello'', str_of ''world'']"
      and ps = "[(str_of ''hello world'', str_of ''fine'')]"]
  note long = pad_sequence_shape [OF h, where xs = "[str_of ''a'', str_of ''b'', str_of ''c'', str_of ''d'']"]
  have v: "pad_sequence [str_of ''hello'', str_of ''world''] 3 = [str_of ''hello'', str_of ''world'', str_of ''<PAD>'']"
    by (simp add: pad_sequence_def py_slice_to_def py_list_mul_def PAD_def)
  from short have l: "length (pad_sequence [str_of ''hello'', str_of ''world''] 3) = nat 3"
    by (rule conjunct1)
  from short have "\<forall>i < min (length [str_of ''hello'', str_of ''world'']) (nat 3).
      pad_sequence [str_of ''hello'', str_of ''world''] 3 ! i = [str_of ''hello'', str_of ''world''] ! i"
    by blast
  then have i1: "pad_sequence [str_of ''hello'', str_of ''world''] 3 ! 1 = str_of ''world''"
    by simp
  from short have "\<forall>i. min (length [str_of ''hello'', str_of ''world'']) (nat 3) \<le> i \<and> i < nat 3
           \<longrightarrow> pad_sequence [str_of ''hello'', str_of ''world''] 3 ! i = PAD"
    by blast
  then have i2: "pad_sequence [str_of ''hello'', str_of ''world''] 3 ! 2 = PAD"
    by simp
  have n: "nat 3 \<le> length [str_of ''a'', str_of ''b'', str_of ''c'', str_of ''d'']" and p: "PAD \<notin> set [str_of ''a'', str_of ''b'', str_of ''c'', str_of ''d'']"
    by (simp_all add: PAD_def str_of_def)
  from long n have "pad_sequence [str_of ''a'', str_of ''b'', str_of ''c'', str_of ''d''] 3 = take (nat 3) [str_of ''a'', str_of ''b'', str_of ''c'', str_of ''d'']"
    by blast
  then have t: "pad_sequence [str_of ''a'', str_of ''b'', str_of ''c'', str_of ''d''] 3 = [str_of ''a'', str_of ''b'', str_of ''c'']"
    by (simp add: numeral_eq_Suc)
  from long n p have q: "PAD \<notin> set (pad_sequence [str_of ''a'', str_of ''b'', str_of ''c'', str_of ''d''] 3)"
    by blast
  from short have "\<forall>(a, b) \<in> set (pad_pairs [(str_of ''hello world'', str_of ''fine'')] 3).
      length a = nat 3 \<and> length b = nat 3"
    by blast
  moreover have "pad_pairs [(str_of ''hello world'', str_of ''fine'')] 3 ! 0 \<in> set (pad_pairs [(str_of ''hello world'', str_of ''fine'')] 3)"
    by (simp add: pad_pairs_def)
  ultimately have s: "length (fst (pad_pairs [(str_of ''hello world'', str_of ''fine'')] 3 ! 0)) = 3
      \<and> length (snd (pad_pairs [(str_of ''hello world'', str_of ''fine'')] 3 ! 0)) = 3"
    by (auto simp: split_beta)
  from h v l i1 i2 t q s show ?thesis by simp
qed

section \<open>The sentinel\<close>

lemma pair_loop_map:
  assumes "\<And>u. utt_text (f u) = g (utt_text u)"
  shows "pair_loop [] (convo\<lparr>convo_utterances := map f (convo_utterances convo)\<rparr>)
         = map (\<lambda>(a, b). (g a, g b)) (pair_loop [] convo)"
  by (simp add: pair_loop_eq assms)

lemma extract_pairs_map:
  assumes "\<And>u. utt_text (f u) = g (utt_text u)"
  shows "extract_pairs (map (\<lambda>convo. convo\<lparr>convo_utterances := map f (convo_utterances convo)\<rparr>) corpus)
         = map (\<lambda>(a, b). (g a, g b)) (extract_pairs corpus)"
  by (simp add: extract_pairs_concat map_concat o_def pair_loop_map [of f g, OF assms])

lemma extract_pairs_tokenize: "extract_pairs (tokenize_utterances corpus) = extract_pairs corpus"
proof -
  have "extract_pairs (tokenize_utterances corpus)
        = map (\<lambda>(a, b). (a, b)) (extract_pairs corpus)"
    unfolding tokenize_utterances_def
    by (rule extract_pairs_map) simp
  then show ?thesis by simp
qed

lemma extract_pairs_clean:
  "extract_pairs (clean_utterances lower corpus)
   = map (\<lambda>(a, b). (clean_text lower a, clean_text lower b)) (extract_pairs corpus)"
  unfolding clean_utterances_def
  by (rule extract_pairs_map) simp

lemma pad_sequence_PAD_iff:
  assumes "0 \<le> m" and "PAD \<notin> set ts" and "i < nat m"
  shows "(pad_sequence ts m ! i = PAD) = (length ts \<le> i)"
proof (cases "i < length ts")
  case True
  then have "pad_sequence ts m ! i = ts ! i"
    using assms by (simp add: pad_sequence_eq nth_append)
  moreover have "ts ! i \<noteq> PAD"
    using True assms(2) nth_mem [of i ts] by metis
  ultimately show ?thesis using True by simp
next
  case False
  then show ?thesis
    using assms by (simp add: pad_sequence_eq nth_append)
qed

text \<open>
  C7. For every string, of any code points, no token of the cleaned string is the
  sentinel \<^verbatim>\<open><PAD>\<close>: every code point of such a token is a letter or a digit of the
  three ranges that the class of cell 4 keeps (a lower-case letter or a digit when the
  lowered string has none of the letters A to Z), and the angle brackets are not among
  them. So in the padded tokens of a cleaned string, and in both sides of every padded
  pair of the notebook, the sentinel stands exactly at the positions behind the tokens,
  where \<open>pad_sequence\<close> appended it.
\<close>

theorem sentinel_only_padding:
  "PAD \<notin> set (tokenize (clean_text lower s))
   \<and> (\<forall>t \<in> set (tokenize (clean_text lower s)). \<forall>c \<in> set t.
         in_cp_range CHR ''a'' CHR ''z'' c \<or> in_cp_range CHR ''A'' CHR ''Z'' c
           \<or> in_cp_range CHR ''0'' CHR ''9'' c)
   \<and> (no_capital (lower s) \<longrightarrow>
        (\<forall>t \<in> set (tokenize (clean_text lower s)). \<forall>c \<in> set t.
           in_cp_range CHR ''a'' CHR ''z'' c \<or> in_cp_range CHR ''0'' CHR ''9'' c))
   \<and> (0 \<le> m \<longrightarrow> (\<forall>i < nat m.
         (pad_sequence (tokenize (clean_text lower s)) m ! i = PAD)
           = (length (tokenize (clean_text lower s)) \<le> i)))
   \<and> (0 \<le> m \<longrightarrow>
        (\<forall>k < length (extract_pairs (tokenize_utterances (clean_utterances lower corpus))). \<forall>i < nat m.
           (fst (padded_pairs_reference lower corpus m ! k) ! i = PAD)
             = (length (tokenize (fst (extract_pairs (tokenize_utterances (clean_utterances lower corpus)) ! k))) \<le> i)
         \<and> (snd (padded_pairs_reference lower corpus m ! k) ! i = PAD)
             = (length (tokenize (snd (extract_pairs (tokenize_utterances (clean_utterances lower corpus)) ! k))) \<le> i)))"
proof -
  have 1: "PAD \<notin> set (tokenize (clean_text lower u))" for u
    by (rule PAD_not_clean_token)
  have 2: "\<forall>t \<in> set (tokenize (clean_text lower s)). \<forall>c \<in> set t.
         in_cp_range CHR ''a'' CHR ''z'' c \<or> in_cp_range CHR ''A'' CHR ''Z'' c
           \<or> in_cp_range CHR ''0'' CHR ''9'' c"
    using clean_token_chars by blast
  have l: "no_capital (lower s) \<longrightarrow>
        (\<forall>t \<in> set (tokenize (clean_text lower s)). \<forall>c \<in> set t.
           in_cp_range CHR ''a'' CHR ''z'' c \<or> in_cp_range CHR ''0'' CHR ''9'' c)"
    using clean_token_chars_lowered by blast
  have 3: "0 \<le> m \<longrightarrow> (\<forall>i < nat m.
         (pad_sequence (tokenize (clean_text lower s)) m ! i = PAD)
           = (length (tokenize (clean_text lower s)) \<le> i))"
    using pad_sequence_PAD_iff [OF _ 1] by blast
  let ?ps = "extract_pairs (tokenize_utterances (clean_utterances lower corpus))"
  have ps: "?ps = map (\<lambda>(a, b). (clean_text lower a, clean_text lower b)) (extract_pairs corpus)"
    by (simp add: extract_pairs_tokenize extract_pairs_clean)
  have 4: "0 \<le> m \<longrightarrow>
        (\<forall>k < length ?ps. \<forall>i < nat m.
           (fst (padded_pairs_reference lower corpus m ! k) ! i = PAD)
             = (length (tokenize (fst (?ps ! k))) \<le> i)
         \<and> (snd (padded_pairs_reference lower corpus m ! k) ! i = PAD)
             = (length (tokenize (snd (?ps ! k))) \<le> i))"
  proof (intro impI allI)
    fix k i
    assume m: "0 \<le> m" and k: "k < length ?ps" and i: "i < nat m"
    obtain a b where ab: "extract_pairs corpus ! k = (a, b)"
      by (cases "extract_pairs corpus ! k")
    from k have k': "k < length (extract_pairs corpus)" by (simp add: ps)
    have e: "?ps ! k = (clean_text lower a, clean_text lower b)"
      using k' ab by (simp add: ps)
    have p: "padded_pairs_reference lower corpus m ! k
             = (pad_sequence (tokenize (clean_text lower a)) m,
                pad_sequence (tokenize (clean_text lower b)) m)"
      using k e by (simp add: padded_pairs_reference_def pad_pairs_def)
    show "(fst (padded_pairs_reference lower corpus m ! k) ! i = PAD)
             = (length (tokenize (fst (?ps ! k))) \<le> i)
         \<and> (snd (padded_pairs_reference lower corpus m ! k) ! i = PAD)
             = (length (tokenize (snd (?ps ! k))) \<le> i)"
      using pad_sequence_PAD_iff [OF m 1 i] by (simp add: e p)
  qed
  from 1 [of s] 2 l 3 4 show ?thesis by blast
qed

theorem sentinel_only_padding_witness:
  "(0::int) \<le> 4
   \<and> no_capital (lower_fragment (str_of ''say <PAD>'' @ [12288, 8490]))
   \<and> pad_sequence (tokenize (clean_text lower_fragment (str_of ''say <PAD>'' @ [12288, 8490]))) 4
       = [str_of ''say'', str_of ''pad'', str_of ''k'', str_of ''<PAD>'']
   \<and> (pad_sequence (tokenize (clean_text lower_fragment (str_of ''say <PAD>'' @ [12288, 8490]))) 4 ! 3 = PAD)
        = (length (tokenize (clean_text lower_fragment (str_of ''say <PAD>'' @ [12288, 8490]))) \<le> 3)
   \<and> (pad_sequence (tokenize (clean_text lower_fragment (str_of ''say <PAD>'' @ [12288, 8490]))) 4 ! 1 = PAD)
        = (length (tokenize (clean_text lower_fragment (str_of ''say <PAD>'' @ [12288, 8490]))) \<le> 1)
   \<and> (fst (padded_pairs_reference lower_fragment
              [\<lparr>convo_id = ''c'', convo_utterances =
                 [\<lparr>utt_text = str_of ''<PAD> Hi'', utt_tokens = None\<rparr>,
                  \<lparr>utt_text = str_of ''Ok'', utt_tokens = None\<rparr>]\<rparr>] 4 ! 0) ! 0 = PAD)
        = (length (tokenize (fst (extract_pairs (tokenize_utterances (clean_utterances lower_fragment
              [\<lparr>convo_id = ''c'', convo_utterances =
                 [\<lparr>utt_text = str_of ''<PAD> Hi'', utt_tokens = None\<rparr>,
                  \<lparr>utt_text = str_of ''Ok'', utt_tokens = None\<rparr>]\<rparr>])) ! 0))) \<le> 0)
   \<and> (in_cp_range CHR ''a'' CHR ''z'' 112 \<or> in_cp_range CHR ''0'' CHR ''9'' 112)"
proof -
  let ?s = "str_of ''say <PAD>'' @ [12288, 8490]"
  let ?c = "[\<lparr>convo_id = ''c'', convo_utterances =
                 [\<lparr>utt_text = str_of ''<PAD> Hi'', utt_tokens = None\<rparr>,
                  \<lparr>utt_text = str_of ''Ok'', utt_tokens = None\<rparr>]\<rparr>]"
  note t = sentinel_only_padding [of lower_fragment ?s 4 ?c]
  have h: "(0::int) \<le> 4" by simp
  have n: "no_capital (lower_fragment ?s)"
    by (simp add: run_defs)
  have v: "pad_sequence (tokenize (clean_text lower_fragment ?s)) 4
       = [str_of ''say'', str_of ''pad'', str_of ''k'', str_of ''<PAD>'']"
    by (simp add: run_defs)
  have k: "0 < length (extract_pairs (tokenize_utterances (clean_utterances lower_fragment ?c)))"
    by (simp add: run_cells)
  have tk: "tokenize (clean_text lower_fragment ?s) = [str_of ''say'', str_of ''pad'', str_of ''k'']"
    by (simp add: run_defs)
  from t h have a: "\<forall>i < nat 4.
         (pad_sequence (tokenize (clean_text lower_fragment ?s)) 4 ! i = PAD)
           = (length (tokenize (clean_text lower_fragment ?s)) \<le> i)"
    by blast
  have a3: "(pad_sequence (tokenize (clean_text lower_fragment ?s)) 4 ! 3 = PAD)
        = (length (tokenize (clean_text lower_fragment ?s)) \<le> 3)"
    using a by simp
  have a1: "(pad_sequence (tokenize (clean_text lower_fragment ?s)) 4 ! 1 = PAD)
        = (length (tokenize (clean_text lower_fragment ?s)) \<le> 1)"
    using a by simp
  from t h have "\<forall>k < length (extract_pairs (tokenize_utterances (clean_utterances lower_fragment ?c))). \<forall>i < nat 4.
           (fst (padded_pairs_reference lower_fragment ?c 4 ! k) ! i = PAD)
             = (length (tokenize (fst (extract_pairs (tokenize_utterances (clean_utterances lower_fragment ?c)) ! k))) \<le> i)
         \<and> (snd (padded_pairs_reference lower_fragment ?c 4 ! k) ! i = PAD)
             = (length (tokenize (snd (extract_pairs (tokenize_utterances (clean_utterances lower_fragment ?c)) ! k))) \<le> i)"
    by blast
  with k have b: "(fst (padded_pairs_reference lower_fragment ?c 4 ! 0) ! 0 = PAD)
        = (length (tokenize (fst (extract_pairs (tokenize_utterances (clean_utterances lower_fragment ?c)) ! 0))) \<le> 0)"
    by simp
  have "str_of ''pad'' \<in> set (tokenize (clean_text lower_fragment ?s))" and "112 \<in> set (str_of ''pad'')"
    using tk by (simp_all add: str_of_def)
  with t n have c: "in_cp_range CHR ''a'' CHR ''z'' 112 \<or> in_cp_range CHR ''0'' CHR ''9'' 112"
    by blast
  from h n v a3 a1 b c show ?thesis by blast
qed

section \<open>Reuse of the stored tokens\<close>

lemma those_map_Some: "(\<And>x. x \<in> set xs \<Longrightarrow> f x = Some (g x)) \<Longrightarrow> those (map f xs) = Some (map g xs)"
  by (induction xs) simp_all

lemma tokenize_utterances_tokens:
  "convo \<in> set (tokenize_utterances corpus) \<Longrightarrow> utt \<in> set (convo_utterances convo) \<Longrightarrow>
   utt_tokens utt = Some (tokenize (utt_text utt))"
  by (auto simp: tokenize_utterances_def)

lemma tokenize_utterances_texts:
  "map (\<lambda>convo. map utt_text (convo_utterances convo)) (tokenize_utterances corpus)
   = map (\<lambda>convo. map utt_text (convo_utterances convo)) corpus"
  by (simp add: tokenize_utterances_def o_def)

lemma convo_utterance_pairs_set:
  "p \<in> set (convo_utterance_pairs convo) \<Longrightarrow>
   fst p \<in> set (convo_utterances convo) \<and> snd p \<in> set (convo_utterances convo)"
proof -
  have n: "nat (int (length (convo_utterances convo)) - 1) = length (convo_utterances convo) - 1"
    by linarith
  assume "p \<in> set (convo_utterance_pairs convo)"
  then obtain i where "i < length (convo_utterances convo) - 1"
    and "p = (convo_utterances convo ! i, convo_utterances convo ! (i + 1))"
    by (auto simp: convo_utterance_pairs_def py_range_def Let_def n)
  then show ?thesis by simp
qed

lemma pair_loop_utterance_pairs:
  "pair_loop [] convo = map (\<lambda>p. (utt_text (fst p), utt_text (snd p))) (convo_utterance_pairs convo)"
proof -
  have "nat (int (length (convo_utterances convo)) - 1) = length (convo_utterances convo) - 1"
    by linarith
  then show ?thesis
    by (simp add: pair_loop_eq convo_utterance_pairs_def py_range_def Let_def o_def)
qed

lemma extract_pairs_utterance_pairs:
  "extract_pairs corpus
   = map (\<lambda>p. (utt_text (fst p), utt_text (snd p))) (concat (map convo_utterance_pairs corpus))"
proof -
  have "pair_loop [] = (\<lambda>convo. map (\<lambda>p. (utt_text (fst p), utt_text (snd p))) (convo_utterance_pairs convo))"
    by (rule ext) (rule pair_loop_utterance_pairs)
  then show ?thesis
    by (simp add: extract_pairs_concat map_concat o_def)
qed

lemma padded_pairs_cached_tokenized:
  "padded_pairs_cached (tokenize_utterances corpus) m
   = Some (pad_pairs (extract_pairs (tokenize_utterances corpus)) m)"
proof -
  let ?c = "tokenize_utterances corpus"
  let ?g = "\<lambda>p. (pad_sequence (tokenize (utt_text (fst p))) m,
                  pad_sequence (tokenize (utt_text (snd p))) m)"
  have "pad_cached m p = Some (?g p)" if "p \<in> set (concat (map convo_utterance_pairs ?c))" for p
  proof -
    from that obtain convo where c: "convo \<in> set ?c" and p: "p \<in> set (convo_utterance_pairs convo)"
      by auto
    from convo_utterance_pairs_set [OF p] tokenize_utterances_tokens [OF c]
    have "utt_tokens (fst p) = Some (tokenize (utt_text (fst p)))"
      and "utt_tokens (snd p) = Some (tokenize (utt_text (snd p)))"
      by blast+
    then show ?thesis by (simp add: pad_cached_def)
  qed
  then have "padded_pairs_cached ?c m = Some (map ?g (concat (map convo_utterance_pairs ?c)))"
    unfolding padded_pairs_cached_def by (rule those_map_Some)
  also have "map ?g (concat (map convo_utterance_pairs ?c)) = pad_pairs (extract_pairs ?c) m"
    by (simp add: extract_pairs_utterance_pairs [of ?c] pad_pairs_def o_def)
  finally show ?thesis .
qed

text \<open>
  C9. After cells 4 and 5, every utterance's \<open>tokens\<close> are the tokens of its text, and
  cell 5 leaves the texts as cell 4 made them. So padding the stored tokens gives the
  padded pairs of the notebook, which tokenizes the texts of the pairs again.
\<close>

theorem cached_tokens_refine:
  "(\<forall>convo \<in> set (tokenize_utterances (clean_utterances lower corpus)).
      \<forall>utt \<in> set (convo_utterances convo). utt_tokens utt = Some (tokenize (utt_text utt)))
   \<and> map (\<lambda>convo. map utt_text (convo_utterances convo))
         (tokenize_utterances (clean_utterances lower corpus))
       = map (\<lambda>convo. map utt_text (convo_utterances convo)) (clean_utterances lower corpus)
   \<and> padded_pairs_cached (tokenize_utterances (clean_utterances lower corpus)) m
       = Some (padded_pairs_reference lower corpus m)"
  using tokenize_utterances_tokens [of _ "clean_utterances lower corpus"]
    tokenize_utterances_texts [of "clean_utterances lower corpus"]
    padded_pairs_cached_tokenized [of "clean_utterances lower corpus" m]
  by (simp add: padded_pairs_reference_def)

theorem cached_tokens_refine_witness:
  "padded_pairs_cached (tokenize_utterances (clean_utterances lower_fragment
      [\<lparr>convo_id = ''c'', convo_utterances =
         [\<lparr>utt_text = str_of ''Hello, World!'', utt_tokens = None\<rparr>,
          \<lparr>utt_text = str_of ''I'm FINE.'', utt_tokens = None\<rparr>]\<rparr>])) 3
   = Some [([str_of ''hello'', str_of ''world'', str_of ''<PAD>''],
            [str_of ''im'', str_of ''fine'', str_of ''<PAD>''])]
   \<and> utt_tokens \<lparr>utt_text = str_of ''hello world'', utt_tokens = Some [str_of ''hello'', str_of ''world'']\<rparr>
       = Some (tokenize (utt_text
           \<lparr>utt_text = str_of ''hello world'', utt_tokens = Some [str_of ''hello'', str_of ''world'']\<rparr>))"
proof -
  let ?c = "[\<lparr>convo_id = ''c'', convo_utterances =
         [\<lparr>utt_text = str_of ''Hello, World!'', utt_tokens = None\<rparr>,
          \<lparr>utt_text = str_of ''I'm FINE.'', utt_tokens = None\<rparr>]\<rparr>]"
  let ?u = "\<lparr>utt_text = str_of ''hello world'', utt_tokens = Some [str_of ''hello'', str_of ''world'']\<rparr>"
  let ?k = "\<lparr>convo_id = ''c'', convo_utterances =
         [?u, \<lparr>utt_text = str_of ''im fine'', utt_tokens = Some [str_of ''im'', str_of ''fine'']\<rparr>]\<rparr>"
  note t = cached_tokens_refine [of lower_fragment ?c 3]
  have r: "padded_pairs_reference lower_fragment ?c 3
           = [([str_of ''hello'', str_of ''world'', str_of ''<PAD>''],
               [str_of ''im'', str_of ''fine'', str_of ''<PAD>''])]"
    by (simp add: run_cells run_defs)
  have c: "tokenize_utterances (clean_utterances lower_fragment ?c) = [?k]"
    by (simp add: run_cells run_defs)
  then have "?k \<in> set (tokenize_utterances (clean_utterances lower_fragment ?c))"
    by simp
  moreover have "?u \<in> set (convo_utterances ?k)"
    by simp
  ultimately have u: "utt_tokens ?u = Some (tokenize (utt_text ?u))"
    using t by blast
  from t r have "padded_pairs_cached (tokenize_utterances (clean_utterances lower_fragment ?c)) 3
     = Some [([str_of ''hello'', str_of ''world'', str_of ''<PAD>''],
              [str_of ''im'', str_of ''fine'', str_of ''<PAD>''])]"
    by simp
  with u show ?thesis by blast
qed

section \<open>A missing text\<close>

lemma clean_text_dyn_str: "clean_text_dyn lower (PyStr s) = Inr (PyStr (clean_text lower s))"
  by (simp add: clean_text_dyn_def lower_dyn_def re_sub_dyn_def clean_text_def)

text \<open>Called on \<^verbatim>\<open>None\<close> itself, which the loader never hands over, \<open>clean_text\<close>
  raises at its first statement.\<close>

lemma clean_text_dyn_none: "clean_text_dyn lower PyNone = Inl AttributeError"
  by (simp add: clean_text_dyn_def lower_dyn_def)

lemma utterance_text_str:
  "utterance_text raw = PyStr (case raw of PyNone \<Rightarrow> [] | PyStr s \<Rightarrow> s)"
  by (cases raw) (simp_all add: utterance_text_def)

lemma clean_loop_dyn_loaded:
  "clean_loop_dyn lower (map utterance_text raws)
   = Inr (map (\<lambda>raw. PyStr (clean_text lower (case raw of PyNone \<Rightarrow> [] | PyStr s \<Rightarrow> s))) raws)"
  by (induction raws) (simp_all add: utterance_text_str clean_text_dyn_str)

text \<open>
  C8 (as amended). When an utterance has no text (a null), the pipeline does not end in
  an invalid-input condition: the loader hands the empty string to cell 4 in its
  place, \<open>clean_text\<close> returns the cleaned string for it without raising, which is the
  empty string, and the utterance goes on with no tokens, padded to \<open>max_length\<close>
  sentinels. The cleaning loop runs to its end over all utterances, whichever of them
  have no text, with no exception and no invalid-input condition.
\<close>

theorem missing_text_accepted:
  "utterance_text PyNone = PyStr []
   \<and> clean_text_dyn lower (utterance_text PyNone) = Inr (PyStr (clean_text lower []))
   \<and> (lower [] = [] \<longrightarrow>
        clean_text_dyn lower (utterance_text PyNone) = Inr (PyStr [])
        \<and> tokenize (clean_text lower []) = []
        \<and> (0 \<le> m \<longrightarrow> pad_sequence (tokenize (clean_text lower [])) m = replicate (nat m) PAD))
   \<and> clean_loop_dyn lower (map utterance_text raws)
       = Inr (map (\<lambda>raw. PyStr (clean_text lower (case raw of PyNone \<Rightarrow> [] | PyStr s \<Rightarrow> s))) raws)
   \<and> clean_loop_dyn lower (map utterance_text raws) \<noteq> Inl InvalidInput"
proof -
  have 1: "utterance_text PyNone = PyStr []"
    by (simp add: utterance_text_def)
  have 2: "clean_text_dyn lower (utterance_text PyNone) = Inr (PyStr (clean_text lower []))"
    by (simp only: 1 clean_text_dyn_str)
  have 3: "lower [] = [] \<longrightarrow>
        clean_text_dyn lower (utterance_text PyNone) = Inr (PyStr [])
        \<and> tokenize (clean_text lower []) = []
        \<and> (0 \<le> m \<longrightarrow> pad_sequence (tokenize (clean_text lower [])) m = replicate (nat m) PAD)"
  proof
    assume e: "lower [] = []"
    then have c: "clean_text lower [] = []"
      by (simp add: clean_text_def re_sub_empty_def)
    have t: "tokenize [] = []"
      by (simp add: tokenize_def py_split_Nil)
    show "clean_text_dyn lower (utterance_text PyNone) = Inr (PyStr [])
        \<and> tokenize (clean_text lower []) = []
        \<and> (0 \<le> m \<longrightarrow> pad_sequence (tokenize (clean_text lower [])) m = replicate (nat m) PAD)"
      by (simp add: 2 c t pad_sequence_eq)
  qed
  note 4 = clean_loop_dyn_loaded [of lower raws]
  have 5: "clean_loop_dyn lower (map utterance_text raws) \<noteq> Inl InvalidInput"
    by (simp only: 4) simp
  from 1 2 3 4 5 show ?thesis by blast
qed

theorem missing_text_accepted_witness:
  "lower_fragment [] = []
   \<and> clean_text_dyn lower_fragment (utterance_text PyNone) = Inr (PyStr [])
   \<and> (0::int) \<le> 2
   \<and> pad_sequence (tokenize (clean_text lower_fragment [])) 2 = [PAD, PAD]
   \<and> clean_loop_dyn lower_fragment (map utterance_text [PyNone, PyStr (str_of ''OK!'')])
       = Inr [PyStr [], PyStr (str_of ''ok'')]"
proof -
  have h: "lower_fragment [] = []"
    by (simp add: lower_fragment_def)
  have m: "(0::int) \<le> 2"
    by simp
  note t = missing_text_accepted [of lower_fragment 2 "[PyNone, PyStr (str_of ''OK!'')]"]
  from t h have a: "clean_text_dyn lower_fragment (utterance_text PyNone) = Inr (PyStr [])"
    by blast
  from t h m have "pad_sequence (tokenize (clean_text lower_fragment [])) 2 = replicate (nat 2) PAD"
    by blast
  then have p: "pad_sequence (tokenize (clean_text lower_fragment [])) 2 = [PAD, PAD]"
    by (simp add: numeral_eq_Suc)
  have c: "clean_text lower_fragment [] = []" "clean_text lower_fragment (str_of ''OK!'') = str_of ''ok''"
    by (simp_all add: run_defs)
  from t have "clean_loop_dyn lower_fragment (map utterance_text [PyNone, PyStr (str_of ''OK!'')])
       = Inr (map (\<lambda>raw. PyStr (clean_text lower_fragment (case raw of PyNone \<Rightarrow> [] | PyStr s \<Rightarrow> s)))
               [PyNone, PyStr (str_of ''OK!'')])"
    by blast
  then have b: "clean_loop_dyn lower_fragment (map utterance_text [PyNone, PyStr (str_of ''OK!'')])
       = Inr [PyStr [], PyStr (str_of ''ok'')]"
    by (simp add: c)
  from h a m p b show ?thesis by blast
qed

text \<open>
  A corpus whose second utterance has no text: the cleaning loop ends with the cleaned
  texts, the second one empty, and not in an invalid-input condition or any other
  exception.
\<close>

theorem missing_text_counterexample:
  "clean_loop_dyn lower_fragment (map utterance_text [PyStr (str_of ''Hi''), PyNone])
     = Inr [PyStr (str_of ''hi''), PyStr []]
   \<and> clean_loop_dyn lower_fragment (map utterance_text [PyStr (str_of ''Hi''), PyNone])
     \<noteq> Inl InvalidInput"
proof -
  have "clean_loop_dyn lower_fragment (map utterance_text [PyStr (str_of ''Hi''), PyNone])
     = Inr [PyStr (str_of ''hi''), PyStr []]"
    by (simp add: utterance_text_def clean_text_dyn_str run_defs)
  then show ?thesis by simp
qed

section \<open>The split\<close>

lemma is_permutation_length: "is_permutation p n \<Longrightarrow> length p = n"
  unfolding is_permutation_def by (metis size_mset length_upt diff_zero)

lemma is_permutation_set: "is_permutation p n \<Longrightarrow> set p = {0 ..< n}"
  unfolding is_permutation_def by (metis set_mset_mset set_upt)

lemma is_permutation_distinct: "is_permutation p n \<Longrightarrow> distinct p"
  unfolding is_permutation_def by (metis distinct_upt mset_eq_imp_distinct_iff)

lemma mset_map_permutation:
  "is_permutation p (length xs) \<Longrightarrow> mset (map (\<lambda>i. xs ! i) p) = mset xs"
proof -
  assume "is_permutation p (length xs)"
  then have "mset (map (\<lambda>i. xs ! i) p) = mset (map (\<lambda>i. xs ! i) [0 ..< length xs])"
    unfolding is_permutation_def by (metis mset_map)
  then show ?thesis by (simp add: map_nth)
qed

lemma n_test_of_bounds: "n \<le> 5 * n_test_of n \<and> 5 * n_test_of n < n + 5"
  unfolding n_test_of_def by presburger

lemma n_test_of_less: "2 \<le> n \<Longrightarrow> n_test_of n < n"
  unfolding n_test_of_def by presburger

lemma train_test_split_value:
  assumes "is_permutation p (length xs)" and "2 \<le> length xs"
  shows "train_test_split p xs
         = Inr (map (\<lambda>i. xs ! i) (drop (n_test_of (length xs)) p),
                map (\<lambda>i. xs ! i) (take (n_test_of (length xs)) p))"
proof -
  have l: "length p = length xs"
    using assms(1) by (rule is_permutation_length)
  have "n_test_of (length xs) < length xs"
    using assms(2) by (rule n_test_of_less)
  then show ?thesis
    by (simp add: train_test_split_def Let_def l)
qed

lemma train_test_split_parts:
  assumes "is_permutation p (length pairs)" and "2 \<le> length pairs"
  shows "case train_test_split p pairs of
           Inl e \<Rightarrow> False
         | Inr (train, val) \<Rightarrow>
         train = map (\<lambda>i. pairs ! i) (drop (n_test_of (length pairs)) p)
       \<and> val = map (\<lambda>i. pairs ! i) (take (n_test_of (length pairs)) p)
       \<and> set (drop (n_test_of (length pairs)) p) \<inter> set (take (n_test_of (length pairs)) p) = {}
       \<and> distinct p
       \<and> set (drop (n_test_of (length pairs)) p) \<union> set (take (n_test_of (length pairs)) p)
           = {0 ..< length pairs}
       \<and> length train + length val = length pairs
       \<and> mset train + mset val = mset pairs
       \<and> length val = n_test_of (length pairs)
       \<and> length pairs \<le> 5 * length val \<and> 5 * length val < length pairs + 5
       \<and> 4 * length pairs < 5 * length train + 5 \<and> 5 * length train \<le> 4 * length pairs"
proof -
  let ?k = "n_test_of (length pairs)"
  let ?train = "map (\<lambda>i. pairs ! i) (drop ?k p)"
  let ?val = "map (\<lambda>i. pairs ! i) (take ?k p)"
  have l: "length p = length pairs"
    using assms(1) by (rule is_permutation_length)
  have k: "?k < length pairs"
    using assms(2) by (rule n_test_of_less)
  have d: "distinct p"
    using assms(1) by (rule is_permutation_distinct)
  have v: "train_test_split p pairs = Inr (?train, ?val)"
    using assms by (rule train_test_split_value)
  have dj: "set (drop ?k p) \<inter> set (take ?k p) = {}"
    using d set_take_disj_set_drop_if_distinct [of p ?k ?k] by auto
  have un: "set (drop ?k p) \<union> set (take ?k p) = {0 ..< length pairs}"
    using is_permutation_set [OF assms(1)] set_append [of "take ?k p" "drop ?k p"] by auto
  have lv: "length ?val = ?k"
    using k l by simp
  have lt: "length ?train = length pairs - ?k"
    using l by simp
  have "?val @ ?train = map (\<lambda>i. pairs ! i) p"
    by (simp only: map_append [symmetric] append_take_drop_id)
  then have "mset (?val @ ?train) = mset pairs"
    using mset_map_permutation [OF assms(1)] by (simp only:)
  then have ms: "mset ?train + mset ?val = mset pairs"
    by (simp only: mset_append add.commute [of "mset ?train"])
  have b: "length pairs \<le> 5 * ?k \<and> 5 * ?k < length pairs + 5"
    by (rule n_test_of_bounds)
  have ar: "4 * length pairs < 5 * (length pairs - ?k) + 5
            \<and> 5 * (length pairs - ?k) \<le> 4 * length pairs
            \<and> length pairs - ?k + ?k = length pairs"
    using b k by arith
  show ?thesis
    using dj d un ms ar k by (simp add: v l min_def n_test_of_bounds)
qed

lemma n_test_of_small: "n \<le> 1 \<Longrightarrow> n - n_test_of n = 0"
proof -
  assume "n \<le> 1"
  then consider "n = 0" | "n = 1" by linarith
  then show ?thesis by cases (simp_all add: n_test_of_def)
qed

lemma train_test_split_small: "length xs \<le> 1 \<Longrightarrow> train_test_split p xs = Inl ValueError"
  using n_test_of_small [of "length xs"] by (simp add: train_test_split_def Let_def)

lemma distinct_disjoint_images:
  assumes "distinct xs" and "set ixs \<inter> set jxs = {}"
    and "set ixs \<subseteq> {0 ..< length xs}" and "set jxs \<subseteq> {0 ..< length xs}"
  shows "set (map (\<lambda>i. xs ! i) ixs) \<inter> set (map (\<lambda>i. xs ! i) jxs) = {}"
proof (rule ccontr)
  assume "set (map (\<lambda>i. xs ! i) ixs) \<inter> set (map (\<lambda>i. xs ! i) jxs) \<noteq> {}"
  then obtain i j where i: "i \<in> set ixs" and j: "j \<in> set jxs" and e: "xs ! i = xs ! j"
    by auto
  from i j assms(3,4) have "i < length xs" and "j < length xs"
    by auto
  with e assms(1) have "i = j"
    by (simp add: nth_eq_iff_index_eq)
  with i j assms(2) show False by auto
qed

text \<open>
  C5 (as amended). For a list of at least two pairs and every permutation that the
  generator may draw, the split returns a train list and a validation list that are
  read from the input at disjoint positions, which together are all positions; their
  lengths add up to the length of the input, and together they hold each pair as often
  as the input does. The validation list has \<open>\<lceil>N / 5\<rceil>\<close> pairs and the train list the
  others, which is \<open>\<lfloor>4 N / 5\<rfloor>\<close>. The two lists have no pair in common when no pair
  occurs twice in the input. For a list of at most one pair the split raises
  \<^verbatim>\<open>ValueError\<close>, whatever is drawn.
\<close>

theorem train_test_split_partition:
  "(length pairs \<le> 1 \<longrightarrow> train_test_split p pairs = Inl ValueError)
   \<and> (2 \<le> length pairs \<and> is_permutation p (length pairs) \<longrightarrow>
        (case train_test_split p pairs of
           Inl e \<Rightarrow> False
         | Inr (train, val) \<Rightarrow>
             train = map (\<lambda>i. pairs ! i) (drop (n_test_of (length pairs)) p)
           \<and> val = map (\<lambda>i. pairs ! i) (take (n_test_of (length pairs)) p)
           \<and> set (drop (n_test_of (length pairs)) p) \<inter> set (take (n_test_of (length pairs)) p) = {}
           \<and> distinct p
           \<and> set (drop (n_test_of (length pairs)) p) \<union> set (take (n_test_of (length pairs)) p)
               = {0 ..< length pairs}
           \<and> length train + length val = length pairs
           \<and> mset train + mset val = mset pairs
           \<and> length val = n_test_of (length pairs)
           \<and> length pairs \<le> 5 * length val \<and> 5 * length val < length pairs + 5
           \<and> 4 * length pairs < 5 * length train + 5 \<and> 5 * length train \<le> 4 * length pairs
           \<and> (distinct pairs \<longrightarrow> set train \<inter> set val = {})))"
proof (intro conjI impI)
  assume "length pairs \<le> 1"
  then show "train_test_split p pairs = Inl ValueError"
    by (rule train_test_split_small)
next
  assume a: "2 \<le> length pairs \<and> is_permutation p (length pairs)"
  then have perm: "is_permutation p (length pairs)" and two: "2 \<le> length pairs"
    by simp_all
  let ?k = "n_test_of (length pairs)"
  have v: "train_test_split p pairs
           = Inr (map (\<lambda>i. pairs ! i) (drop ?k p), map (\<lambda>i. pairs ! i) (take ?k p))"
    using perm two by (rule train_test_split_value)
  note parts = train_test_split_parts [OF perm two]
  have dj: "set (drop ?k p) \<inter> set (take ?k p) = {}"
    and un: "set (drop ?k p) \<union> set (take ?k p) = {0 ..< length pairs}"
    using parts by (simp_all add: v)
  have "distinct pairs \<Longrightarrow>
        set (map (\<lambda>i. pairs ! i) (drop ?k p)) \<inter> set (map (\<lambda>i. pairs ! i) (take ?k p)) = {}"
    using dj un by (intro distinct_disjoint_images) auto
  then show "case train_test_split p pairs of
           Inl e \<Rightarrow> False
         | Inr (train, val) \<Rightarrow>
             train = map (\<lambda>i. pairs ! i) (drop (n_test_of (length pairs)) p)
           \<and> val = map (\<lambda>i. pairs ! i) (take (n_test_of (length pairs)) p)
           \<and> set (drop (n_test_of (length pairs)) p) \<inter> set (take (n_test_of (length pairs)) p) = {}
           \<and> distinct p
           \<and> set (drop (n_test_of (length pairs)) p) \<union> set (take (n_test_of (length pairs)) p)
               = {0 ..< length pairs}
           \<and> length train + length val = length pairs
           \<and> mset train + mset val = mset pairs
           \<and> length val = n_test_of (length pairs)
           \<and> length pairs \<le> 5 * length val \<and> 5 * length val < length pairs + 5
           \<and> 4 * length pairs < 5 * length train + 5 \<and> 5 * length train \<le> 4 * length pairs
           \<and> (distinct pairs \<longrightarrow> set train \<inter> set val = {})"
    using parts by (simp add: v)
qed

text \<open>
  Two inputs at which the claim fails as it stands. For a list of one pair the train
  part would be empty, and the split raises \<^verbatim>\<open>ValueError\<close> instead of returning two
  lists. For a list that holds one pair twice, the two lists that the split returns
  share that pair.
\<close>

theorem train_test_split_counterexample:
  "is_permutation [0] (length [([str_of ''ok''], [str_of ''ok''])])
   \<and> train_test_split [0] [([str_of ''ok''], [str_of ''ok''])] = Inl ValueError
   \<and> is_permutation [0, 1]
        (length [([str_of ''ok''], [str_of ''ok'']), ([str_of ''ok''], [str_of ''ok''])])
   \<and> train_test_split [0, 1] [([str_of ''ok''], [str_of ''ok'']), ([str_of ''ok''], [str_of ''ok''])]
       = Inr ([([str_of ''ok''], [str_of ''ok''])], [([str_of ''ok''], [str_of ''ok''])])
   \<and> set [([str_of ''ok''], [str_of ''ok''])] \<inter> set [([str_of ''ok''], [str_of ''ok''])] \<noteq> {}"
proof -
  have 1: "is_permutation [0] (length [x])" for x :: "pystr list \<times> pystr list"
    by (simp add: is_permutation_def)
  have 2: "train_test_split [0] [x] = Inl ValueError" for x :: "pystr list \<times> pystr list"
    by (simp add: train_test_split_def n_test_of_def)
  have "[0 ..< 2] = [0, 1]"
    by (simp add: upt_rec)
  then have 3: "is_permutation [0, 1] (length [x, x])" for x :: "pystr list \<times> pystr list"
    by (simp add: is_permutation_def)
  have 4: "train_test_split [0, 1] [x, x] = Inr ([x], [x])" for x :: "pystr list \<times> pystr list"
    by (simp add: train_test_split_def n_test_of_def)
  have 5: "set [x] \<inter> set [x] \<noteq> {}" for x :: "pystr list \<times> pystr list"
    by simp
  from 1 2 3 4 5 show ?thesis by blast
qed

theorem train_test_split_partition_witness:
  "train_test_split [0] [''a''] = Inl ValueError
   \<and> is_permutation [3, 1, 0, 2, 4, 5] (length [''a'', ''b'', ''c'', ''d'', ''e'', ''f''])
   \<and> (2::nat) \<le> length [''a'', ''b'', ''c'', ''d'', ''e'', ''f'']
   \<and> train_test_split [3, 1, 0, 2, 4, 5] [''a'', ''b'', ''c'', ''d'', ''e'', ''f'']
       = Inr ([''a'', ''c'', ''e'', ''f''], [''d'', ''b''])
   \<and> mset [''a'', ''c'', ''e'', ''f''] + mset [''d'', ''b''] = mset [''a'', ''b'', ''c'', ''d'', ''e'', ''f'']
   \<and> set [''a'', ''c'', ''e'', ''f''] \<inter> set [''d'', ''b''] = {}"
proof -
  have h0: "length [''a''] \<le> 1"
    by simp
  from train_test_split_partition [of "[''a'']" "[0]"] h0
  have s: "train_test_split [0] [''a''] = Inl ValueError"
    by blast
  have h1: "is_permutation [3, 1, 0, 2, 4, 5] (length [''a'', ''b'', ''c'', ''d'', ''e'', ''f''])"
    by (simp add: is_permutation_def upt_rec numeral_eq_Suc add_mset_commute)
  have h2: "(2::nat) \<le> length [''a'', ''b'', ''c'', ''d'', ''e'', ''f'']"
    by simp
  have h3: "distinct [''a'', ''b'', ''c'', ''d'', ''e'', ''f'']"
    by simp
  have v: "train_test_split [3, 1, 0, 2, 4, 5] [''a'', ''b'', ''c'', ''d'', ''e'', ''f'']
       = Inr ([''a'', ''c'', ''e'', ''f''], [''d'', ''b''])"
    by (simp add: train_test_split_def n_test_of_def)
  from train_test_split_partition [of "[''a'', ''b'', ''c'', ''d'', ''e'', ''f'']" "[3, 1, 0, 2, 4, 5]"] h1 h2
  have "case train_test_split [3, 1, 0, 2, 4, 5] [''a'', ''b'', ''c'', ''d'', ''e'', ''f''] of
          Inl e \<Rightarrow> False
        | Inr (train, val) \<Rightarrow>
            mset train + mset val = mset [''a'', ''b'', ''c'', ''d'', ''e'', ''f'']
          \<and> (distinct [''a'', ''b'', ''c'', ''d'', ''e'', ''f''] \<longrightarrow> set train \<inter> set val = {})"
    by (auto split: sum.splits)
  with h3 have "mset [''a'', ''c'', ''e'', ''f''] + mset [''d'', ''b''] = mset [''a'', ''b'', ''c'', ''d'', ''e'', ''f'']
      \<and> set [''a'', ''c'', ''e'', ''f''] \<inter> set [''d'', ''b''] = {}"
    unfolding v by simp
  with s h1 h2 v show ?thesis by blast
qed

section \<open>The file\<close>

lemma hex_val_hex_digit: "d < 16 \<Longrightarrow> hex_val (hex_digit d) = Some d"
  by (auto simp: hex_val_def hex_digit_def in_range_def)

lemma hex4_u_escape:
  "n < 256 \<Longrightarrow>
   hex4 [hex_digit (n div 4096 mod 16), hex_digit (n div 256 mod 16),
         hex_digit (n div 16 mod 16), hex_digit (n mod 16)] = Some n"
proof -
  assume n: "n < 256"
  have "n div 4096 mod 16 = 0" "n div 256 mod 16 = 0" "n div 16 mod 16 = n div 16"
    using n by auto
  moreover have "n div 16 < 16" "n mod 16 < 16" using n by auto
  moreover have "n div 16 * 16 + n mod 16 = n" by simp
  ultimately show ?thesis
    by (simp add: hex_val_hex_digit)
qed

lemma drop_4_Cons: "drop 4 (a # b # c # d # rest) = rest"
  by (simp add: numeral_eq_Suc)

lemma take_4_Cons: "take 4 (a # b # c # d # rest) = [a, b, c, d]"
  by (simp add: numeral_eq_Suc)

lemma scanstring_u:
  "scanstring (CHR 0x5C # CHR ''u'' # a # b # c # d # rest)
   = (case hex4 [a, b, c, d] of
        None \<Rightarrow> None
      | Some n \<Rightarrow>
          if n < 256 then map_option (\<lambda>(t, r). (char_of n # t, r)) (scanstring rest) else None)"
  by (simp only: scanstring.simps list.case drop_4_Cons take_4_Cons) simp

lemma scanstring_u_escape:
  "scanstring (u_escape (of_char c) @ rest)
   = map_option (\<lambda>(t, r). (c # t, r)) (scanstring rest)"
proof -
  have n: "(of_char c :: nat) < 256" by simp
  have "scanstring (u_escape (of_char c) @ rest)
        = (case hex4 [hex_digit (of_char c div 4096 mod 16), hex_digit (of_char c div 256 mod 16),
                      hex_digit (of_char c div 16 mod 16), hex_digit (of_char c mod 16)] of
             None \<Rightarrow> None
           | Some n \<Rightarrow>
               if n < 256 then map_option (\<lambda>(t, r). (char_of n # t, r)) (scanstring rest) else None)"
    unfolding u_escape_def append_Cons append_Nil by (rule scanstring_u)
  also have "\<dots> = map_option (\<lambda>(t, r). (c # t, r)) (scanstring rest)"
    unfolding hex4_u_escape [OF n] by simp
  finally show ?thesis .
qed

lemma scanstring_escape_char:
  "scanstring (escape_char c @ rest) = map_option (\<lambda>(t, r). (c # t, r)) (scanstring rest)"
proof (cases "c = CHR 0x5C \<or> c = CHR 0x22 \<or> c = CHR 0x08 \<or> c = CHR 0x0C
              \<or> c = CHR 0x0A \<or> c = CHR 0x0D \<or> c = CHR 0x09")
  case True
  then show ?thesis
    by (auto simp: escape_char_def unescape_def)
next
  case False
  show ?thesis
  proof (cases "in_range CHR 0x20 CHR 0x7E c")
    case True
    with False have "escape_char c = [c]" and "\<not> (of_char c :: nat) < 32"
      by (auto simp: escape_char_def in_range_def)
    with False show ?thesis by simp
  next
    case no: False
    with False have "escape_char c = u_escape (of_char c)"
      by (simp add: escape_char_def)
    then show ?thesis by (simp only: scanstring_u_escape)
  qed
qed

lemma scanstring_escaped:
  "scanstring (concat (map escape_char s) @ CHR 0x22 # rest) = Some (s, rest)"
  by (induction s) (simp_all add: scanstring_escape_char)

lemma json_encode_head:
  "\<exists>c cs. json_encode v = c # cs \<and> (c = CHR 0x22 \<or> c = CHR ''['')"
  by (cases v) (simp_all add: encode_basestring_ascii_def)

lemma py_join_Cons: "py_join sep (x # xs) = x @ (if xs = [] then [] else sep @ py_join sep xs)"
  by (cases xs) simp_all

lemma py_join_head:
  "vs \<noteq> [] \<Longrightarrow>
   \<exists>c cs. py_join sep (map json_encode vs) = c # cs \<and> (c = CHR 0x22 \<or> c = CHR ''['')"
proof -
  assume "vs \<noteq> []"
  then obtain v ws where vs: "vs = v # ws" by (cases vs) auto
  from json_encode_head [of v] obtain c cs where "json_encode v = c # cs"
    and "c = CHR 0x22 \<or> c = CHR ''[''" by blast
  then show ?thesis
    by (simp add: vs py_join_Cons)
qed

lemma skip_ws_head: "\<not> json_ws c \<Longrightarrow> skip_ws (c # cs) = c # cs"
  by (simp add: skip_ws_def)

lemma skip_ws_space: "skip_ws (CHR '' '' # cs) = skip_ws cs"
  by (simp add: skip_ws_def json_ws_def)

lemma parse_value_string:
  "parse_value (Suc n) (encode_basestring_ascii s @ rest) = Some (JString s, rest)"
  by (simp add: encode_basestring_ascii_def scanstring_escaped)

lemma parse_elems_encoded:
  assumes "\<And>v n rest. v \<in> set vs \<Longrightarrow> length (json_encode v) \<le> n \<Longrightarrow>
             parse_value n (json_encode v @ rest) = Some (v, rest)"
    and "vs \<noteq> []"
    and "length (py_join '', '' (map json_encode vs)) < n"
  shows "parse_elems n (py_join '', '' (map json_encode vs) @ CHR '']'' # rest) = Some (vs, rest)"
  using assms
proof (induction vs arbitrary: n)
  case Nil
  then show ?case by simp
next
  case (Cons v ws)
  from Cons.prems(3) obtain k where n: "n = Suc k" by (cases n) auto
  have pv: "length (json_encode v) \<le> m \<Longrightarrow> parse_value m (json_encode v @ r) = Some (v, r)" for m r
    using Cons.prems(1) [of v m r] by simp
  show ?case
  proof (cases "ws = []")
    case True
    have "length (json_encode v) \<le> k"
      using Cons.prems(3) n True by simp
    then have "parse_value k (json_encode v @ CHR '']'' # rest) = Some (v, CHR '']'' # rest)"
      by (rule pv)
    then show ?thesis
      by (simp add: n True skip_ws_head json_ws_def)
  next
    case False
    let ?tail = "py_join '', '' (map json_encode ws) @ CHR '']'' # rest"
    have j: "py_join '', '' (map json_encode (v # ws))
             = json_encode v @ '', '' @ py_join '', '' (map json_encode ws)"
      using False by (simp add: py_join_Cons)
    have lv: "length (json_encode v) \<le> k"
      and lw: "length (py_join '', '' (map json_encode ws)) < k"
      using Cons.prems(3) n j by simp_all
    have 1: "parse_value k (json_encode v @ CHR '','' # CHR '' '' # ?tail)
             = Some (v, CHR '','' # CHR '' '' # ?tail)"
      using lv by (rule pv)
    from py_join_head [OF False, of "'', ''"] obtain c cs
      where h: "py_join '', '' (map json_encode ws) = c # cs" and c: "c = CHR 0x22 \<or> c = CHR ''[''"
      by blast
    have 2: "skip_ws (CHR '' '' # ?tail) = ?tail"
      using c by (auto simp: skip_ws_space h skip_ws_head json_ws_def)
    have 3: "parse_elems k ?tail = Some (ws, rest)"
      using Cons.IH [OF _ False lw] Cons.prems(1) by simp
    show ?thesis
      unfolding j n by (simp add: 1 2 3 skip_ws_head json_ws_def)
  qed
qed

lemma parse_value_encode:
  "length (json_encode v) \<le> n \<Longrightarrow> parse_value n (json_encode v @ rest) = Some (v, rest)"
proof (induction v arbitrary: n rest)
  case (JString s)
  then obtain k where "n = Suc k"
    by (cases n) (auto simp: encode_basestring_ascii_def)
  then show ?case
    by (simp only: json_encode.simps parse_value_string)
next
  case (JArray vs)
  from JArray.prems obtain k where n: "n = Suc k" by (cases n) auto
  show ?case
  proof (cases "vs = []")
    case True
    then show ?thesis
      by (simp add: n skip_ws_head json_ws_def)
  next
    case False
    let ?body = "py_join '', '' (map json_encode vs)"
    from py_join_head [OF False, of "'', ''"] obtain c cs
      where h: "?body = c # cs" and c: "c = CHR 0x22 \<or> c = CHR ''[''"
      by blast
    have l: "length ?body < k"
      using JArray.prems n by simp
    have e: "parse_elems k (?body @ CHR '']'' # rest) = Some (vs, rest)"
      using JArray.IH False l by (rule parse_elems_encoded)
    have s: "skip_ws (?body @ CHR '']'' # rest) = c # cs @ CHR '']'' # rest"
      using c by (auto simp: h skip_ws_head json_ws_def)
    have "parse_elems k (c # cs @ CHR '']'' # rest) = Some (vs, rest)"
      using e by (simp add: h)
    then show ?thesis
      using c by (auto simp: n s)
  qed
qed

lemma json_loads_encode: "json_loads (json_encode v) = Some v"
proof -
  from json_encode_head [of v] obtain c cs where h: "json_encode v = c # cs"
    and c: "c = CHR 0x22 \<or> c = CHR ''[''" by blast
  have s: "skip_ws (json_encode v) = json_encode v"
    using c by (auto simp: h skip_ws_head json_ws_def)
  have "parse_value (length (json_encode v)) (json_encode v @ []) = Some (v, [])"
    by (rule parse_value_encode) simp
  moreover have "skip_ws [] = []"
    by (simp add: skip_ws_def)
  ultimately show ?thesis
    by (simp add: json_loads_def s)
qed

lemma those_map_Some_comp: "those (map (\<lambda>x. Some (g x)) xs) = Some (map g xs)"
  by (induction xs) simp_all

lemma tokens_of_json_of_tokens: "tokens_of_json (json_of_tokens ts) = Some ts"
  by (simp add: json_of_tokens_def o_def those_map_Some_comp)

lemma pair_of_json_of_pair: "pair_of_json (json_of_pair p) = Some p"
  by (simp add: json_of_pair_def tokens_of_json_of_tokens)

lemma pairs_of_json_of_pairs: "pairs_of_json (json_of_pairs ps) = Some ps"
  by (simp add: json_of_pairs_def o_def pair_of_json_of_pair those_map_Some_comp)

lemma deserialize_json_dump: "deserialize (json_dump ps) = Some ps"
  by (simp add: deserialize_def json_dump_def json_loads_encode pairs_of_json_of_pairs)

text \<open>
  C6. For every list of pairs of token lists, reading the text that \<open>json_dump\<close> writes
  gives back the document of nested arrays of the list, and from it the same list of
  pairs: the same token strings in the same order. The reader returns each pair as an
  array of two arrays, the form in which a tuple is written.
\<close>

theorem serializer_round_trip:
  "json_loads (json_dump pairs) = Some (json_of_pairs pairs)
   \<and> pairs_of_json (json_of_pairs pairs) = Some pairs
   \<and> deserialize (json_dump pairs) = Some pairs"
proof -
  have doc: "json_loads (json_dump pairs) = Some (json_of_pairs pairs)"
    unfolding json_dump_def by (rule json_loads_encode)
  have rd: "pairs_of_json (json_of_pairs pairs) = Some pairs"
    by (rule pairs_of_json_of_pairs)
  have "deserialize (json_dump pairs) = pairs_of_json (json_of_pairs pairs)"
    by (simp add: deserialize_def doc)
  with doc rd show ?thesis by simp
qed

theorem serializer_round_trip_witness:
  "json_dump [([''im'', ''fine'', ''<PAD>''], [''ok'', ''<PAD>'', ''<PAD>''])]
     = ''[[['' @ [CHR 0x22] @ ''im'' @ [CHR 0x22] @ '', '' @ [CHR 0x22] @ ''fine'' @ [CHR 0x22] @ '', ''
          @ [CHR 0x22] @ ''<PAD>'' @ [CHR 0x22] @ ''], ['' @ [CHR 0x22] @ ''ok'' @ [CHR 0x22] @ '', ''
          @ [CHR 0x22] @ ''<PAD>'' @ [CHR 0x22] @ '', '' @ [CHR 0x22] @ ''<PAD>'' @ [CHR 0x22] @ '']]]''
   \<and> deserialize (json_dump [([''im'', ''fine'', ''<PAD>''], [''ok'', ''<PAD>'', ''<PAD>''])])
     = Some [([''im'', ''fine'', ''<PAD>''], [''ok'', ''<PAD>'', ''<PAD>''])]"
proof -
  have "json_dump [([''im'', ''fine'', ''<PAD>''], [''ok'', ''<PAD>'', ''<PAD>''])]
     = ''[[['' @ [CHR 0x22] @ ''im'' @ [CHR 0x22] @ '', '' @ [CHR 0x22] @ ''fine'' @ [CHR 0x22] @ '', ''
          @ [CHR 0x22] @ ''<PAD>'' @ [CHR 0x22] @ ''], ['' @ [CHR 0x22] @ ''ok'' @ [CHR 0x22] @ '', ''
          @ [CHR 0x22] @ ''<PAD>'' @ [CHR 0x22] @ '', '' @ [CHR 0x22] @ ''<PAD>'' @ [CHR 0x22] @ '']]]''"
    by code_simp
  with serializer_round_trip [of "[([''im'', ''fine'', ''<PAD>''], [''ok'', ''<PAD>'', ''<PAD>''])]"]
  show ?thesis by blast
qed

end
